theory Spec2Isabelle
  imports Main "HOL-Library.Char_ord" "HOL-Library.List_Lexorder" "HOL-Library.Product_Lexorder"
    "HOL-Library.Option_ord"
begin

section \<open>Data model (src/types.ts)\<close>

text \<open>
  A JavaScript \<^verbatim>\<open>number\<close>, as far as this service can tell numbers apart: \<^verbatim>\<open>NaN\<close>, or a
  number proper. The numbers proper are taken to be integers, which every reading of
  \<^verbatim>\<open>Date.now()\<close> is. \<^verbatim>\<open>a - b\<close> is \<^verbatim>\<open>NaN\<close> as soon as one side is, \<^verbatim>\<open>a <= b\<close> is false
  as soon as one side is \<^verbatim>\<open>NaN\<close>.
\<close>

datatype number = Num int | NaN

fun number_minus :: "number \<Rightarrow> number \<Rightarrow> number" where
  "number_minus (Num a) (Num b) = Num (a - b)"
| "number_minus (Num a) NaN = NaN"
| "number_minus NaN b = NaN"

fun number_le :: "number \<Rightarrow> number \<Rightarrow> bool" where
  "number_le (Num a) (Num b) = (a \<le> b)"
| "number_le (Num a) NaN = False"
| "number_le NaN b = False"

text \<open>
  The three interfaces of \<^verbatim>\<open>types.ts\<close> that the storage service moves around. An optional
  field is an \<open>option\<close>. The field \<^verbatim>\<open>id\<close> and the field
  \<^verbatim>\<open>description\<close> occur in two interfaces (and \<open>id\<close> is a HOL constant), so they carry the
  interface's name as a suffix.
\<close>

record ImageDescription =
  subject :: string
  colors :: "string list"
  style :: string
  mood :: string
  lighting :: string
  visualElements :: "string list"

record GalleryImage =
  id_image :: string
  galleryId :: string
  url :: string
  base64 :: string
  mimeType :: string
  description_image :: ImageDescription
  timestamp :: number

record Gallery =
  id_gallery :: string
  name :: string
  description_gallery :: "string option"
  coverImageId :: "string option"
  createdAt :: number
  updatedAt :: number

section \<open>The IndexedDB primitives the service calls\<close>

text \<open>
  An object store with \<^verbatim>\<open>keyPath: 'id'\<close> holds at most one record per key and keeps its
  records in ascending key order; it is a list of records in that order, the key being read
  from the record by \<open>pkey\<close>. \<^verbatim>\<open>put\<close> inserts or overwrites by key, \<^verbatim>\<open>get\<close> yields the
  record or \<^verbatim>\<open>undefined\<close> (\<open>None\<close>), \<^verbatim>\<open>delete\<close> removes the record of a key and is silent
  when there is none, \<^verbatim>\<open>clear\<close> removes everything. Keys are strings, compared character
  by character; on the ASCII identifiers of this application that is IndexedDB's order of
  string keys.
\<close>

fun store_put :: "('v \<Rightarrow> string) \<Rightarrow> 'v \<Rightarrow> 'v list \<Rightarrow> 'v list" where
  "store_put pkey v [] = [v]"
| "store_put pkey v (x # xs) =
     (if pkey v < pkey x then v # x # xs
      else if pkey v = pkey x then v # xs
      else x # store_put pkey v xs)"

definition store_get :: "('v \<Rightarrow> string) \<Rightarrow> string \<Rightarrow> 'v list \<Rightarrow> 'v option" where
  "store_get pkey k store = find (\<lambda>v. pkey v = k) store"

definition store_delete :: "('v \<Rightarrow> string) \<Rightarrow> string \<Rightarrow> 'v list \<Rightarrow> 'v list" where
  "store_delete pkey k store = filter (\<lambda>v. pkey v \<noteq> k) store"

definition store_clear :: "'v list \<Rightarrow> 'v list" where
  "store_clear store = []"

text \<open>
  An index holds the records of its store whose key path yields a valid key, by index key,
  and by primary key among records with the same index key. Every string is a valid key; a
  number is one unless it is \<^verbatim>\<open>NaN\<close>; a record without a valid key stays in the store and
  has no entry in the index. A cursor opened on the index visits the records of the index
  whose key lies in the key range, in index order (\<^verbatim>\<open>'next'\<close>, the default) or in the
  reverse of it (\<^verbatim>\<open>'prev'\<close>); \<^verbatim>\<open>count\<close> is the number of records of the index in the
  range.
\<close>

fun number_key :: "number \<Rightarrow> int option" where
  "number_key (Num n) = Some n"
| "number_key NaN = None"

datatype 'k key_range = Unbounded | Only 'k

datatype direction = Next | Prev

fun in_range :: "'k key_range \<Rightarrow> 'k option \<Rightarrow> bool" where
  "in_range Unbounded k = True"
| "in_range (Only k') k = (k = Some k')"

definition index_records ::
  "('v \<Rightarrow> 'k::linorder option) \<Rightarrow> ('v \<Rightarrow> string) \<Rightarrow> 'v list \<Rightarrow> 'v list" where
  "index_records ikey pkey store =
     sort_key (\<lambda>v. (ikey v, pkey v)) (filter (\<lambda>v. ikey v \<noteq> None) store)"

definition openCursor ::
  "('v \<Rightarrow> 'k::linorder option) \<Rightarrow> ('v \<Rightarrow> string) \<Rightarrow> 'k key_range \<Rightarrow> direction \<Rightarrow> 'v list \<Rightarrow> 'v list"
  where
  "openCursor ikey pkey kr dir store =
     (let hits = filter (\<lambda>v. in_range kr (ikey v)) (index_records ikey pkey store)
      in case dir of Next \<Rightarrow> hits | Prev \<Rightarrow> rev hits)"

definition index_count ::
  "('v \<Rightarrow> 'k::linorder option) \<Rightarrow> ('v \<Rightarrow> string) \<Rightarrow> 'k key_range \<Rightarrow> 'v list \<Rightarrow> nat" where
  "index_count ikey pkey kr store =
     length (filter (\<lambda>v. in_range kr (ikey v)) (index_records ikey pkey store))"

text \<open>
  The three indexes that the upgrade handler of \<^verbatim>\<open>openDB\<close> creates: \<^verbatim>\<open>timestamp\<close> and
  \<^verbatim>\<open>galleryId\<close> on the images, \<^verbatim>\<open>createdAt\<close> on the galleries.
\<close>

definition index_timestamp :: "GalleryImage \<Rightarrow> int option" where
  "index_timestamp v = number_key (timestamp v)"

definition index_galleryId :: "GalleryImage \<Rightarrow> string option" where
  "index_galleryId v = Some (galleryId v)"

definition index_createdAt :: "Gallery \<Rightarrow> int option" where
  "index_createdAt g = number_key (createdAt g)"

text \<open>
  The \<^verbatim>\<open>onsuccess\<close> handler of a cursor request runs once per visited record (the handler
  calls \<^verbatim>\<open>cursor.continue()\<close> each time) and a last time with a null cursor. What the
  handlers of this service do to the record under the cursor (read it, delete it) leaves the
  records still to be visited as they are, so the visited records are those of the range
  when the cursor is opened.
\<close>

fun cursor_walk :: "('v \<Rightarrow> 's \<Rightarrow> 's) \<Rightarrow> ('s \<Rightarrow> 'r) \<Rightarrow> 'v list \<Rightarrow> 's \<Rightarrow> 'r" where
  "cursor_walk visit finish [] s = finish s"
| "cursor_walk visit finish (v # vs) s = cursor_walk visit finish vs (visit v s)"

text \<open>
  What the platform decides about one transaction: every request succeeds and the
  transaction commits; or the request numbered \<open>k\<close> (from 0, in the order the requests are
  placed) fails, its error event reaches the transaction, nothing calls
  \<^verbatim>\<open>preventDefault\<close>, and the transaction aborts; or every request succeeds and the commit
  itself fails, which aborts the transaction with an \<^verbatim>\<open>abort\<close> event and no \<^verbatim>\<open>error\<close>
  event. A transaction with fewer than \<open>k + 1\<close> requests has no request \<open>k\<close> to fail.
  An aborted transaction leaves the stores as they were when it started.
\<close>

datatype txn_fate = Commits | RequestError nat | CommitError

datatype txn_end = Complete | AbortedByRequest | AbortedAtCommit

fun finish_txn :: "txn_fate \<Rightarrow> nat \<Rightarrow> txn_end" where
  "finish_txn Commits n = Complete"
| "finish_txn (RequestError k) n = (if k < n then AbortedByRequest else Complete)"
| "finish_txn CommitError n = AbortedAtCommit"

fun txn_state :: "txn_end \<Rightarrow> 's \<Rightarrow> 's \<Rightarrow> 's" where
  "txn_state Complete s0 s1 = s1"
| "txn_state AbortedByRequest s0 s1 = s0"
| "txn_state AbortedAtCommit s0 s1 = s0"

datatype error = OpenFailed | RequestFailed

datatype 'a promise = Resolved 'a | Rejected error | Pending

text \<open>
  How a promise of the service settles. Most functions resolve in the \<^verbatim>\<open>onsuccess\<close>
  handler of their (last) request and reject in its \<^verbatim>\<open>onerror\<close> handler; \<^verbatim>\<open>saveImages\<close>
  and \<^verbatim>\<open>deleteGallery\<close> resolve in \<^verbatim>\<open>transaction.oncomplete\<close> and reject in
  \<^verbatim>\<open>transaction.onerror\<close>, so that a commit failure, which fires neither, leaves the
  promise unsettled.
\<close>

fun settle_on_request :: "txn_end \<Rightarrow> 'a \<Rightarrow> 'a promise" where
  "settle_on_request Complete v = Resolved v"
| "settle_on_request AbortedByRequest v = Rejected RequestFailed"
| "settle_on_request AbortedAtCommit v = Resolved v"

fun settle_on_transaction :: "txn_end \<Rightarrow> 'a \<Rightarrow> 'a promise" where
  "settle_on_transaction Complete v = Resolved v"
| "settle_on_transaction AbortedByRequest v = Rejected RequestFailed"
| "settle_on_transaction AbortedAtCommit v = Pending"

section \<open>JavaScript library functions\<close>

text \<open>
  \<^verbatim>\<open>s.substr(start, length)\<close> for non-negative arguments: at most \<open>length\<close> characters from
  position \<open>start\<close>, fewer (down to none) when the string ends earlier.
\<close>

definition substr :: "string \<Rightarrow> nat \<Rightarrow> nat \<Rightarrow> string" where
  "substr s start len = take len (drop start s)"

text \<open>
  \<^verbatim>\<open>Array.prototype.sort(comparefn)\<close> is a stable sort: \<open>a\<close> goes before \<open>b\<close> when
  \<open>comparefn a b < 0\<close>, elements that compare equal keep their order, and a comparator
  result of \<^verbatim>\<open>NaN\<close> counts as zero. For a consistent comparator that fixes the result, here
  computed by insertion from the right. For a comparator that is not consistent (as the
  difference of timestamps is once one of them is \<^verbatim>\<open>NaN\<close>) the standard leaves the order to
  the engine; no statement below is about that case.
\<close>

fun sort_compare :: "number \<Rightarrow> int" where
  "sort_compare (Num v) = v"
| "sort_compare NaN = 0"

fun sort_insert :: "('a \<Rightarrow> 'a \<Rightarrow> number) \<Rightarrow> 'a \<Rightarrow> 'a list \<Rightarrow> 'a list" where
  "sort_insert comparefn a [] = [a]"
| "sort_insert comparefn a (b # bs) =
     (if sort_compare (comparefn a b) \<le> 0 then a # b # bs
      else b # sort_insert comparefn a bs)"

fun Array_sort :: "('a \<Rightarrow> 'a \<Rightarrow> number) \<Rightarrow> 'a list \<Rightarrow> 'a list" where
  "Array_sort comparefn [] = []"
| "Array_sort comparefn (a # as) = sort_insert comparefn a (Array_sort comparefn as)"

text \<open>
  \<^verbatim>\<open>Math.random().toString(36).substr(2, 9)\<close>, the expression that makes the id of a new
  gallery (\<^verbatim>\<open>createGallery\<close>) and of a new image (\<^verbatim>\<open>ImageGeneratorModal.tsx\<close>, line 104).
  Its argument is the text of \<^verbatim>\<open>Math.random().toString(36)\<close>: \<^verbatim>\<open>0\<close> for zero, otherwise
  \<^verbatim>\<open>0.\<close> and the base-36 digits of the random number, as many as it takes to tell the
  number from its neighbours.
\<close>

definition generate_id :: "string \<Rightarrow> string" where
  "generate_id random36 = substr random36 2 9"

section \<open>The storage service (src/services/storageService.ts)\<close>

text \<open>
  The state: whether the module variable \<^verbatim>\<open>dbInstance\<close> holds a connection (it starts
  as \<^verbatim>\<open>null\<close>), and the two object stores of the database \<^verbatim>\<open>vibematch-gallery\<close>. What the
  platform decides during one call is the call's \<open>env\<close>: whether \<^verbatim>\<open>indexedDB.open\<close>
  succeeds, should the call have to open the database, and the fate of its transaction.
\<close>

record world =
  dbInstance :: bool
  galleries :: "Gallery list"
  images :: "GalleryImage list"

record env =
  open_ok :: bool
  fate :: txn_fate

definition init_world :: world where
  "init_world = \<lparr>dbInstance = False, galleries = [], images = []\<rparr>"

definition env_ok :: env where
  "env_ok = \<lparr>open_ok = True, fate = Commits\<rparr>"

text \<open>
  \<^verbatim>\<open>openDB\<close> returns the cached connection when there is one; otherwise it opens the
  database, caches the connection on success and rejects on error. The upgrade handler
  creates the two stores and their indexes when they are missing; the stores of \<open>world\<close>
  are the stores after it.
\<close>

definition openDB :: "env \<Rightarrow> world \<Rightarrow> error + world" where
  "openDB e w =
     (if dbInstance w then Inr w
      else if open_ok e then Inr (w\<lparr>dbInstance := True\<rparr>)
      else Inl OpenFailed)"

text \<open>
  \<^verbatim>\<open>createGallery\<close>. The arguments after the name and the description are what the platform
  hands to the three calls in the object literal: \<open>random36\<close> is the text of
  \<^verbatim>\<open>Math.random().toString(36)\<close>, \<open>now1\<close> and \<open>now2\<close> are the two readings of
  \<^verbatim>\<open>Date.now()\<close>, in source order. The literal sets no \<^verbatim>\<open>coverImageId\<close>.
\<close>

definition new_gallery :: "string \<Rightarrow> string option \<Rightarrow> string \<Rightarrow> int \<Rightarrow> int \<Rightarrow> Gallery" where
  "new_gallery nm descr random36 now1 now2 =
     \<lparr>id_gallery = generate_id random36, name = nm, description_gallery = descr,
      coverImageId = None, createdAt = Num now1, updatedAt = Num now2\<rparr>"

definition createGallery ::
  "string \<Rightarrow> string option \<Rightarrow> string \<Rightarrow> int \<Rightarrow> int \<Rightarrow> env \<Rightarrow> world \<Rightarrow> Gallery promise \<times> world" where
  "createGallery nm descr random36 now1 now2 e w =
     (case openDB e w of
        Inl err \<Rightarrow> (Rejected err, w)
      | Inr w1 \<Rightarrow>
          (let gallery = new_gallery nm descr random36 now1 now2;
               fin = finish_txn (fate e) 1
           in (settle_on_request fin gallery,
               txn_state fin w1
                 (w1\<lparr>galleries := store_put id_gallery gallery (galleries w1)\<rparr>))))"

text \<open>
  \<^verbatim>\<open>updateGallery\<close> assigns \<^verbatim>\<open>Date.now()\<close> (the argument \<open>now\<close>) to the \<^verbatim>\<open>updatedAt\<close> of
  the caller's object and puts that object.
\<close>

definition updateGallery :: "Gallery \<Rightarrow> int \<Rightarrow> env \<Rightarrow> world \<Rightarrow> unit promise \<times> world" where
  "updateGallery gallery now e w =
     (case openDB e w of
        Inl err \<Rightarrow> (Rejected err, w)
      | Inr w1 \<Rightarrow>
          (let stamped = gallery\<lparr>updatedAt := Num now\<rparr>;
               fin = finish_txn (fate e) 1
           in (settle_on_request fin (),
               txn_state fin w1
                 (w1\<lparr>galleries := store_put id_gallery stamped (galleries w1)\<rparr>))))"

definition loadAllGalleries :: "env \<Rightarrow> world \<Rightarrow> Gallery list promise \<times> world" where
  "loadAllGalleries e w =
     (case openDB e w of
        Inl err \<Rightarrow> (Rejected err, w)
      | Inr w1 \<Rightarrow>
          (let visited = openCursor index_createdAt id_gallery Unbounded Prev (galleries w1);
               fin = finish_txn (fate e) (Suc (length visited))
           in (cursor_walk (\<lambda>v gs. gs @ [v]) (settle_on_request fin) visited [], w1)))"

text \<open>
  \<^verbatim>\<open>loadGallery\<close> resolves with \<^verbatim>\<open>request.result || null\<close>: the record when there is one
  (an object is truthy), \<^verbatim>\<open>null\<close> for \<^verbatim>\<open>undefined\<close>.
\<close>

definition loadGallery :: "string \<Rightarrow> env \<Rightarrow> world \<Rightarrow> Gallery option promise \<times> world" where
  "loadGallery gid e w =
     (case openDB e w of
        Inl err \<Rightarrow> (Rejected err, w)
      | Inr w1 \<Rightarrow>
          (let fin = finish_txn (fate e) 1
           in (settle_on_request fin
                 (case store_get id_gallery gid (galleries w1) of
                    Some g \<Rightarrow> Some g
                  | None \<Rightarrow> None),
               w1)))"

text \<open>
  \<^verbatim>\<open>deleteGallery\<close> places, in one transaction over both stores, the delete of the gallery
  record, the cursor request over the images whose \<^verbatim>\<open>galleryId\<close> is the gallery's, and for
  every visited image a \<^verbatim>\<open>cursor.delete()\<close> (which removes the record of the cursor's
  primary key) and a \<^verbatim>\<open>cursor.continue()\<close>.
\<close>

definition deleteGallery :: "string \<Rightarrow> env \<Rightarrow> world \<Rightarrow> unit promise \<times> world" where
  "deleteGallery gid e w =
     (case openDB e w of
        Inl err \<Rightarrow> (Rejected err, w)
      | Inr w1 \<Rightarrow>
          (let galleriesStore = store_delete id_gallery gid (galleries w1);
               visited = openCursor index_galleryId id_image (Only gid) Next (images w1);
               imagesStore =
                 cursor_walk (\<lambda>v s. store_delete id_image (id_image v) s) (\<lambda>s. s)
                   visited (images w1);
               fin = finish_txn (fate e) (2 + 2 * length visited)
           in (settle_on_transaction fin (),
               txn_state fin w1
                 (w1\<lparr>galleries := galleriesStore, images := imagesStore\<rparr>))))"

definition saveImage :: "GalleryImage \<Rightarrow> env \<Rightarrow> world \<Rightarrow> unit promise \<times> world" where
  "saveImage img e w =
     (case openDB e w of
        Inl err \<Rightarrow> (Rejected err, w)
      | Inr w1 \<Rightarrow>
          (let fin = finish_txn (fate e) 1
           in (settle_on_request fin (),
               txn_state fin w1
                 (w1\<lparr>images := store_put id_image img (images w1)\<rparr>))))"

text \<open>\<^verbatim>\<open>saveImages\<close>: one transaction, one \<^verbatim>\<open>put\<close> per element, in list order.\<close>

definition saveImages :: "GalleryImage list \<Rightarrow> env \<Rightarrow> world \<Rightarrow> unit promise \<times> world" where
  "saveImages imgs e w =
     (case openDB e w of
        Inl err \<Rightarrow> (Rejected err, w)
      | Inr w1 \<Rightarrow>
          (let fin = finish_txn (fate e) (length imgs)
           in (settle_on_transaction fin (),
               txn_state fin w1
                 (w1\<lparr>images := fold (store_put id_image) imgs (images w1)\<rparr>))))"

definition loadGalleryImages :: "string \<Rightarrow> env \<Rightarrow> world \<Rightarrow> GalleryImage list promise \<times> world" where
  "loadGalleryImages gid e w =
     (case openDB e w of
        Inl err \<Rightarrow> (Rejected err, w)
      | Inr w1 \<Rightarrow>
          (let visited = openCursor index_galleryId id_image (Only gid) Next (images w1);
               fin = finish_txn (fate e) (Suc (length visited))
           in (cursor_walk (\<lambda>v imgs. imgs @ [v])
                 (\<lambda>imgs. settle_on_request fin
                    (Array_sort (\<lambda>a b. number_minus (timestamp b) (timestamp a)) imgs))
                 visited [],
               w1)))"

definition loadAllImages :: "env \<Rightarrow> world \<Rightarrow> GalleryImage list promise \<times> world" where
  "loadAllImages e w =
     (case openDB e w of
        Inl err \<Rightarrow> (Rejected err, w)
      | Inr w1 \<Rightarrow>
          (let visited = openCursor index_timestamp id_image Unbounded Prev (images w1);
               fin = finish_txn (fate e) (Suc (length visited))
           in (cursor_walk (\<lambda>v imgs. imgs @ [v]) (settle_on_request fin) visited [], w1)))"

definition deleteImage :: "string \<Rightarrow> env \<Rightarrow> world \<Rightarrow> unit promise \<times> world" where
  "deleteImage imageId e w =
     (case openDB e w of
        Inl err \<Rightarrow> (Rejected err, w)
      | Inr w1 \<Rightarrow>
          (let fin = finish_txn (fate e) 1
           in (settle_on_request fin (),
               txn_state fin w1
                 (w1\<lparr>images := store_delete id_image imageId (images w1)\<rparr>))))"

definition clearAllImages :: "env \<Rightarrow> world \<Rightarrow> unit promise \<times> world" where
  "clearAllImages e w =
     (case openDB e w of
        Inl err \<Rightarrow> (Rejected err, w)
      | Inr w1 \<Rightarrow>
          (let fin = finish_txn (fate e) 1
           in (settle_on_request fin (),
               txn_state fin w1 (w1\<lparr>images := store_clear (images w1)\<rparr>))))"

definition getGalleryImageCount :: "string \<Rightarrow> env \<Rightarrow> world \<Rightarrow> nat promise \<times> world" where
  "getGalleryImageCount gid e w =
     (case openDB e w of
        Inl err \<Rightarrow> (Rejected err, w)
      | Inr w1 \<Rightarrow>
          (let fin = finish_txn (fate e) 1
           in (settle_on_request fin
                 (index_count index_galleryId id_image (Only gid) (images w1)),
               w1)))"

text \<open>
  \<^verbatim>\<open>getGalleryCoverImage\<close> awaits \<^verbatim>\<open>loadGalleryImages\<close> and answers
  \<^verbatim>\<open>images.length > 0 ? images[0] : null\<close>; a rejection of the awaited promise is its own.
\<close>

definition getGalleryCoverImage ::
  "string \<Rightarrow> env \<Rightarrow> world \<Rightarrow> GalleryImage option promise \<times> world" where
  "getGalleryCoverImage gid e w =
     (case loadGalleryImages gid e w of
        (Resolved imgs, w1) \<Rightarrow> (Resolved (if length imgs > 0 then Some (imgs ! 0) else None), w1)
      | (Rejected err, w1) \<Rightarrow> (Rejected err, w1)
      | (Pending, w1) \<Rightarrow> (Pending, w1))"

section \<open>Sequences of calls\<close>

text \<open>
  The calls that write, each with the platform's decisions for it; \<open>exec\<close> runs a sequence
  of them. \<open>store_ok\<close> is what an object store guarantees about its records: ascending
  primary keys, each at most once.
\<close>

datatype call =
    CreateGallery string "string option" string int int
  | UpdateGallery Gallery int
  | DeleteGallery string
  | SaveImage GalleryImage
  | SaveImages "GalleryImage list"
  | DeleteImage string
  | ClearAllImages

fun step :: "env \<times> call \<Rightarrow> world \<Rightarrow> world" where
  "step (e, CreateGallery nm descr random36 now1 now2) w =
     snd (createGallery nm descr random36 now1 now2 e w)"
| "step (e, UpdateGallery gallery now) w = snd (updateGallery gallery now e w)"
| "step (e, DeleteGallery gid) w = snd (deleteGallery gid e w)"
| "step (e, SaveImage img) w = snd (saveImage img e w)"
| "step (e, SaveImages imgs) w = snd (saveImages imgs e w)"
| "step (e, DeleteImage imageId) w = snd (deleteImage imageId e w)"
| "step (e, ClearAllImages) w = snd (clearAllImages e w)"

definition exec :: "(env \<times> call) list \<Rightarrow> world \<Rightarrow> world" where
  "exec cs w = fold step cs w"

definition store_ok :: "world \<Rightarrow> bool" where
  "store_ok w \<longleftrightarrow>
     sorted_wrt (<) (map id_gallery (galleries w)) \<and> sorted_wrt (<) (map id_image (images w))"

section \<open>Derived notions used in the statements\<close>


section \<open>Example data\<close>

text \<open>
  Two galleries created in the same millisecond, three images in the first (two of them with
  the same timestamp, one written by a batch) and one image in the second; platforms
  that fail in the ways distinguished above; and a caller that hands \<^verbatim>\<open>updateGallery\<close> a
  record whose \<^verbatim>\<open>createdAt\<close> is \<^verbatim>\<open>NaN\<close>.
\<close>

definition no_description :: ImageDescription where
  "no_description =
     \<lparr>subject = [], colors = [], style = [], mood = [], lighting = [], visualElements = []\<rparr>"

definition example_image :: "string \<Rightarrow> string \<Rightarrow> number \<Rightarrow> GalleryImage" where
  "example_image i g t =
     \<lparr>id_image = i, galleryId = g, url = [], base64 = [], mimeType = ''image/png'',
      description_image = no_description, timestamp = t\<rparr>"

definition trip_calls :: "(env \<times> call) list" where
  "trip_calls =
     [(env_ok, CreateGallery ''Trip'' None ''0.trip00001xyz'' 100 100),
      (env_ok, CreateGallery ''Home'' (Some ''at home'') ''0.home00002abc'' 100 101),
      (env_ok, SaveImages [example_image ''img3'' ''trip00001'' (Num 30),
                           example_image ''img1'' ''trip00001'' (Num 20)]),
      (env_ok, SaveImage (example_image ''img2'' ''trip00001'' (Num 30))),
      (env_ok, SaveImage (example_image ''img4'' ''home00002'' (Num 25)))]"

definition trip_world :: world where
  "trip_world = exec trip_calls init_world"

definition cover_calls :: "(env \<times> call) list" where
  "cover_calls =
     trip_calls @
     [(env_ok, SaveImage (example_image ''img6'' ''trip00001'' (Num 50))),
      (env_ok, DeleteImage ''img6''),
      (env_ok, SaveImage (example_image ''img7'' ''trip00001'' (Num 30)))]"

definition nan_calls :: "(env \<times> call) list" where
  "nan_calls =
     trip_calls @
     [(env_ok, UpdateGallery
         ((new_gallery ''Trip'' None ''0.trip00001xyz'' 100 100)\<lparr>createdAt := NaN\<rparr>) 200)]"

definition request_fails :: env where
  "request_fails = \<lparr>open_ok = True, fate = RequestError 0\<rparr>"

definition second_put_fails :: env where
  "second_put_fails = \<lparr>open_ok = True, fate = RequestError 1\<rparr>"


definition open_fails :: env where
  "open_fails = \<lparr>open_ok = False, fate = Commits\<rparr>"



section \<open>Object stores: put, get, delete and the cursor walks\<close>

lemma set_store_put_subset: "set (store_put pk v xs) \<subseteq> insert v (set xs)"
  by (induction xs) auto

lemma sorted_store_put:
  "sorted_wrt (<) (map pk xs) \<Longrightarrow> sorted_wrt (<) (map pk (store_put pk v xs))"
proof (induction xs)
  case Nil
  then show ?case by simp
next
  case (Cons x xs)
  have "\<forall>y\<in>set (store_put pk v xs). pk x < pk y" if "pk x < pk v"
    using that Cons.prems set_store_put_subset [of pk v xs] by auto
  with Cons show ?case by auto
qed

lemma store_get_put:
  "sorted_wrt (<) (map pk xs) \<Longrightarrow>
   store_get pk k (store_put pk v xs) = (if k = pk v then Some v else store_get pk k xs)"
proof (induction xs)
  case Nil
  then show ?case by (simp add: store_get_def)
next
  case (Cons x xs)
  have absent: "find (\<lambda>y. pk y = pk x) xs = None"
    using Cons.prems by (auto simp: find_None_iff)
  from Cons show ?case
    by (auto simp: store_get_def absent)
qed

lemma sorted_store_delete:
  "sorted_wrt (<) (map pk xs) \<Longrightarrow> sorted_wrt (<) (map pk (store_delete pk k xs))"
  by (induction xs) (auto simp: store_delete_def)

lemma store_get_Some_iff:
  "sorted_wrt (<) (map pk xs) \<Longrightarrow> store_get pk k xs = Some v \<longleftrightarrow> v \<in> set xs \<and> pk v = k"
proof (induction xs)
  case Nil
  then show ?case by (simp add: store_get_def)
next
  case (Cons x xs)
  then show ?case by (auto simp: store_get_def)
qed

lemma store_get_None_iff: "store_get pk k xs = None \<longleftrightarrow> k \<notin> pk ` set xs"
  by (auto simp: store_get_def find_None_iff)

lemma walk_delete:
  "cursor_walk (\<lambda>v s. store_delete pk (pk v) s) (\<lambda>s. s) vs s = filter (\<lambda>x. pk x \<notin> pk ` set vs) s"
proof (induction vs arbitrary: s)
  case Nil
  then show ?case by simp
next
  case (Cons v vs)
  then show ?case by (simp add: store_delete_def)
qed

lemma walk_push: "cursor_walk (\<lambda>v acc. acc @ [v]) finish vs acc = finish (acc @ vs)"
  by (induction vs arbitrary: acc) auto

lemma set_openCursor:
  "set (openCursor ikey pkey kr dir s) = {v \<in> set s. ikey v \<noteq> None \<and> in_range kr (ikey v)}"
  by (cases dir) (auto simp: openCursor_def index_records_def)

lemma length_openCursor:
  "length (openCursor ikey pkey kr dir s) = index_count ikey pkey kr s"
  by (cases dir) (auto simp: openCursor_def index_count_def)

lemma sorted_filter_pk:
  "sorted_wrt (<) (map pk xs) \<Longrightarrow> sorted_wrt (<) (map pk (filter P xs))"
  by (induction xs) auto

lemma sorted_fold_put:
  "sorted_wrt (<) (map pk xs) \<Longrightarrow> sorted_wrt (<) (map pk (fold (store_put pk) vs xs))"
  by (induction vs arbitrary: xs) (auto simp: sorted_store_put)

lemma openDB_cases:
  obtains (fail) "openDB e w = Inl OpenFailed" "\<not> dbInstance w" "\<not> open_ok e"
  | (ok) "openDB e w = Inr (w\<lparr>dbInstance := True\<rparr>)" "dbInstance w \<or> open_ok e"
  by (cases "dbInstance w"; cases "open_ok e") (auto simp: openDB_def)

lemma txn_state_if: "txn_state fin s0 s1 = (if fin = Complete then s1 else s0)"
  by (cases fin) auto

text \<open>Every writing call keeps both stores in ascending key order with one record per key.\<close>

lemma store_ok_step: "store_ok w \<Longrightarrow> store_ok (step c w)"
proof -
  assume ok: "store_ok w"
  obtain e k where c: "c = (e, k)" by (cases c)
  show ?thesis
  proof (cases rule: openDB_cases [of e w])
    case fail
    with ok c show ?thesis
      by (cases k)
        (simp_all add: createGallery_def updateGallery_def deleteGallery_def saveImage_def
          saveImages_def deleteImage_def clearAllImages_def)
  next
    case ok2: ok
    from ok ok2(1) c show ?thesis
      by (cases k)
        (simp_all add: createGallery_def updateGallery_def deleteGallery_def saveImage_def
          saveImages_def deleteImage_def clearAllImages_def Let_def walk_delete store_clear_def
          txn_state_if store_ok_def sorted_store_put sorted_store_delete sorted_filter_pk
          sorted_fold_put)
  qed
qed

lemma store_ok_exec: "store_ok w \<Longrightarrow> store_ok (exec cs w)"
  unfolding exec_def by (induction cs arbitrary: w) (auto simp: store_ok_step)

lemma store_ok_init: "store_ok init_world"
  by (simp add: store_ok_def init_world_def)

lemma store_ok_reachable: "store_ok (exec cs init_world)"
  by (rule store_ok_exec [OF store_ok_init])

lemma owned_by:
  "{v \<in> set s. index_galleryId v \<noteq> None \<and> in_range (Only G) (index_galleryId v)}
     = {v \<in> set s. galleryId v = G}"
  by (auto simp: index_galleryId_def)

lemma set_cursor_galleryId:
  "set (openCursor index_galleryId id_image (Only G) dir s) = {v \<in> set s. galleryId v = G}"
  unfolding set_openCursor by (rule owned_by)

section \<open>Deleting a gallery\<close>

lemma pk_inj_on:
  fixes pk :: "'v \<Rightarrow> 'k::linorder"
  assumes "sorted_wrt (<) (map pk xs)"
  shows "inj_on pk (set xs)"
proof -
  have "distinct (map pk xs)"
    using assms strict_sorted_iff [of "map pk xs"] by blast
  then show ?thesis
    using distinct_map [of pk xs] by blast
qed

lemma pk_unique:
  fixes pk :: "'v \<Rightarrow> 'k::linorder"
  shows "sorted_wrt (<) (map pk xs) \<Longrightarrow> x \<in> set xs \<Longrightarrow> y \<in> set xs \<Longrightarrow> pk x = pk y \<Longrightarrow> x = y"
  by (meson inj_onD pk_inj_on)

lemma owned_filter:
  fixes pk :: "'v \<Rightarrow> 'k::linorder"
  assumes "sorted_wrt (<) (map pk xs)"
  shows "filter (\<lambda>x. pk x \<notin> pk ` {v \<in> set xs. P v}) xs = filter (\<lambda>x. \<not> P x) xs"
proof (rule filter_cong [OF refl])
  fix x assume x: "x \<in> set xs"
  show "(pk x \<notin> pk ` {v \<in> set xs. P v}) = (\<not> P x)"
  proof (cases "P x")
    case True
    with x show ?thesis by blast
  next
    case False
    have "v = x" if "v \<in> set xs" "pk x = pk v" for v
      using pk_unique [OF assms x that(1) that(2)] by simp
    with False show ?thesis by blast
  qed
qed

lemma deleteGallery_stores:
  assumes "store_ok w"
  shows "fst (deleteGallery G e w) = Resolved () \<Longrightarrow>
           dbInstance (snd (deleteGallery G e w)) \<and>
           galleries (snd (deleteGallery G e w)) = filter (\<lambda>g. id_gallery g \<noteq> G) (galleries w) \<and>
           images (snd (deleteGallery G e w)) = filter (\<lambda>i. galleryId i \<noteq> G) (images w)"
    and "fst (deleteGallery G e w) \<noteq> Resolved () \<Longrightarrow>
           galleries (snd (deleteGallery G e w)) = galleries w \<and>
           images (snd (deleteGallery G e w)) = images w"
proof -
  have own: "filter (\<lambda>x. id_image x \<notin> id_image ` {v \<in> set (images w). galleryId v = G}) (images w)
      = filter (\<lambda>i. galleryId i \<noteq> G) (images w)"
    using assms owned_filter [of id_image "images w" "\<lambda>v. galleryId v = G"]
    by (simp add: store_ok_def)
  show "fst (deleteGallery G e w) = Resolved () \<Longrightarrow>
           dbInstance (snd (deleteGallery G e w)) \<and>
           galleries (snd (deleteGallery G e w)) = filter (\<lambda>g. id_gallery g \<noteq> G) (galleries w) \<and>
           images (snd (deleteGallery G e w)) = filter (\<lambda>i. galleryId i \<noteq> G) (images w)"
    by (cases rule: openDB_cases [of e w]; cases "finish_txn (fate e) (2 + 2 * length (openCursor index_galleryId id_image (Only G) Next (images w)))")
      (simp_all add: deleteGallery_def Let_def walk_delete set_cursor_galleryId own store_delete_def)
  show "fst (deleteGallery G e w) \<noteq> Resolved () \<Longrightarrow>
           galleries (snd (deleteGallery G e w)) = galleries w \<and>
           images (snd (deleteGallery G e w)) = images w"
    by (cases rule: openDB_cases [of e w]; cases "finish_txn (fate e) (2 + 2 * length (openCursor index_galleryId id_image (Only G) Next (images w)))")
      (simp_all add: deleteGallery_def Let_def)
qed

lemma openCursor_none:
  "\<forall>v\<in>set s. \<not> in_range kr (ikey v) \<Longrightarrow> openCursor ikey pkey kr dir s = []"
proof -
  assume "\<forall>v\<in>set s. \<not> in_range kr (ikey v)"
  then have "set (openCursor ikey pkey kr dir s) = {}"
    unfolding set_openCursor by blast
  then show ?thesis by simp
qed

lemma loadGalleryImages_none:
  assumes "dbInstance w" "\<forall>i\<in>set (images w). galleryId i \<noteq> G"
  shows "fst (loadGalleryImages G e w) = settle_on_request (finish_txn (fate e) 1) []"
proof -
  have "openCursor index_galleryId id_image (Only G) Next (images w) = []"
    using assms(2) by (intro openCursor_none) (auto simp: index_galleryId_def)
  with assms(1) show ?thesis
    by (simp add: loadGalleryImages_def openDB_def)
qed

lemma deleteGallery_resolved:
  "(fst (deleteGallery G e w) = Resolved ()) =
     ((dbInstance w \<or> open_ok e) \<and>
      finish_txn (fate e) (2 + 2 * index_count index_galleryId id_image (Only G) (images w)) = Complete)"
  by (cases rule: openDB_cases [of e w];
      cases "finish_txn (fate e) (2 + 2 * index_count index_galleryId id_image (Only G) (images w))")
    (auto simp: deleteGallery_def Let_def length_openCursor)

text \<open>
  Claim C1. \<^verbatim>\<open>deleteGallery(G)\<close> removes the gallery record and every image whose
  \<^verbatim>\<open>galleryId\<close> is \<open>G\<close> in one transaction; its promise resolves exactly when the
  connection is available and that transaction commits. When it resolves, the gallery is no
  longer stored (a get by id finds nothing and \<^verbatim>\<open>loadGallery(G)\<close> resolves with null),
  \<^verbatim>\<open>loadGalleryImages(G)\<close> resolves with the empty list (and can yield nothing but the empty
  list or a failed read, whatever the platform does), and a get by id on every image that
  \<open>G\<close> owned finds nothing. When the promise does not resolve (the connection cannot be
  opened, a request fails, or the commit fails) both stores hold exactly what they held
  before: there is no partial cascade.
\<close>

theorem deleteGallery_cascade:
  assumes "store_ok w"
  shows "(fst (deleteGallery G e w) = Resolved () \<longrightarrow>
            store_get id_gallery G (galleries (snd (deleteGallery G e w))) = None \<and>
            fst (loadGallery G env_ok (snd (deleteGallery G e w))) = Resolved None \<and>
            fst (loadGalleryImages G env_ok (snd (deleteGallery G e w))) = Resolved [] \<and>
            (\<forall>e'. fst (loadGalleryImages G e' (snd (deleteGallery G e w)))
                    \<in> {Resolved [], Rejected RequestFailed}) \<and>
            (\<forall>img\<in>set (images w). galleryId img = G \<longrightarrow>
               store_get id_image (id_image img) (images (snd (deleteGallery G e w))) = None))
       \<and> (fst (deleteGallery G e w) \<noteq> Resolved () \<longrightarrow>
            galleries (snd (deleteGallery G e w)) = galleries w \<and>
            images (snd (deleteGallery G e w)) = images w)
       \<and> ((fst (deleteGallery G e w) = Resolved ()) =
            ((dbInstance w \<or> open_ok e) \<and>
             finish_txn (fate e) (2 + 2 * index_count index_galleryId id_image (Only G) (images w))
               = Complete))"
proof (intro conjI impI)
  show "(fst (deleteGallery G e w) = Resolved ()) =
            ((dbInstance w \<or> open_ok e) \<and>
             finish_txn (fate e) (2 + 2 * index_count index_galleryId id_image (Only G) (images w))
               = Complete)"
    by (rule deleteGallery_resolved)
next
  assume r: "fst (deleteGallery G e w) = Resolved ()"
  let ?w = "snd (deleteGallery G e w)"
  note st = deleteGallery_stores(1) [OF assms r]
  show g: "store_get id_gallery G (galleries ?w) = None"
    using st by (auto simp: store_get_None_iff)
  show "fst (loadGallery G env_ok ?w) = Resolved None"
    using st g by (simp add: loadGallery_def openDB_def env_ok_def)
  have conn: "dbInstance ?w"
    using st by (rule conjunct1)
  have "images ?w = filter (\<lambda>i. galleryId i \<noteq> G) (images w)"
    using st by (elim conjE)
  then have none: "\<forall>i\<in>set (images ?w). galleryId i \<noteq> G"
    by simp
  have load: "fst (loadGalleryImages G e' ?w) = settle_on_request (finish_txn (fate e') 1) []" for e'
    by (rule loadGalleryImages_none [OF conn none])
  show "fst (loadGalleryImages G env_ok ?w) = Resolved []"
    unfolding load by (simp add: env_ok_def)
  show "\<forall>e'. fst (loadGalleryImages G e' ?w) \<in> {Resolved [], Rejected RequestFailed}"
  proof
    fix e'
    show "fst (loadGalleryImages G e' ?w) \<in> {Resolved [], Rejected RequestFailed}"
      unfolding load by (cases "finish_txn (fate e') 1") simp_all
  qed
  show "\<forall>img\<in>set (images w). galleryId img = G \<longrightarrow>
               store_get id_image (id_image img) (images ?w) = None"
  proof (intro ballI impI)
    fix img assume img: "img \<in> set (images w)" "galleryId img = G"
    have srt: "sorted_wrt (<) (map id_image (images w))"
      using assms by (simp add: store_ok_def)
    have "id_image img \<notin> id_image ` {i \<in> set (images w). galleryId i \<noteq> G}"
    proof
      assume "id_image img \<in> id_image ` {i \<in> set (images w). galleryId i \<noteq> G}"
      then obtain i where i: "i \<in> set (images w)" "galleryId i \<noteq> G" "id_image i = id_image img"
        by auto
      from pk_unique [OF srt i(1) img(1) i(3)] i(2) img(2) show False by simp
    qed
    then show "store_get id_image (id_image img) (images ?w) = None"
      using st by (simp add: store_get_None_iff)
  qed
next
  assume "fst (deleteGallery G e w) \<noteq> Resolved ()"
  from deleteGallery_stores(2) [OF assms this]
  show "galleries (snd (deleteGallery G e w)) = galleries w"
    and "images (snd (deleteGallery G e w)) = images w" by simp_all
qed

section \<open>Counting, the frame of a gallery deletion, and reading one gallery\<close>

lemma loadGalleryImages_result:
  "fst (loadGalleryImages G e w) =
     (case openDB e w of
        Inl err \<Rightarrow> Rejected err
      | Inr w1 \<Rightarrow>
          settle_on_request
            (finish_txn (fate e) (Suc (index_count index_galleryId id_image (Only G) (images w))))
            (Array_sort (\<lambda>a b. number_minus (timestamp b) (timestamp a))
               (openCursor index_galleryId id_image (Only G) Next (images w))))"
  by (cases rule: openDB_cases [of e w])
    (simp_all add: loadGalleryImages_def Let_def walk_push length_openCursor)

lemma getGalleryImageCount_result:
  "fst (getGalleryImageCount G e w) =
     (case openDB e w of
        Inl err \<Rightarrow> Rejected err
      | Inr w1 \<Rightarrow>
          settle_on_request (finish_txn (fate e) 1)
            (index_count index_galleryId id_image (Only G) (images w)))"
  by (cases rule: openDB_cases [of e w]) (simp_all add: getGalleryImageCount_def)

lemma length_sort_insert: "length (sort_insert c a xs) = Suc (length xs)"
  by (induction xs) auto

lemma length_Array_sort: "length (Array_sort c xs) = length xs"
  by (induction xs) (auto simp: length_sort_insert)

lemma settle_on_request_Resolved:
  "settle_on_request fin v = Resolved v' \<Longrightarrow> v' = v"
  by (cases fin) auto

text \<open>
  Claim C3. After any sequence of writing calls (gallery creation and update, single and
  batch image saves, image and gallery deletion, clearing), started in any state and with
  any platform behaviour during those calls, \<^verbatim>\<open>getGalleryImageCount(G)\<close> and
  \<^verbatim>\<open>loadGalleryImages(G)\<close> both resolve on a working platform and the count is the length of
  the list; and whenever the two resolve, on whatever platform, the count is the length of
  the list.
\<close>

theorem count_consistency:
  "(\<exists>imgs. fst (loadGalleryImages G env_ok (exec cs w)) = Resolved imgs \<and>
            fst (getGalleryImageCount G env_ok (exec cs w)) = Resolved (length imgs))
   \<and> (\<forall>e1 e2 n imgs.
         fst (getGalleryImageCount G e1 (exec cs w)) = Resolved n \<and>
         fst (loadGalleryImages G e2 (exec cs w)) = Resolved imgs \<longrightarrow> n = length imgs)"
proof (intro conjI allI impI)
  let ?w = "exec cs w"
  let ?hits = "openCursor index_galleryId id_image (Only G) Next (images ?w)"
  let ?sorted = "Array_sort (\<lambda>a b. number_minus (timestamp b) (timestamp a)) ?hits"
  have len: "length ?sorted = index_count index_galleryId id_image (Only G) (images ?w)"
    by (simp add: length_Array_sort length_openCursor)
  have "fst (loadGalleryImages G env_ok ?w) = Resolved ?sorted"
    unfolding loadGalleryImages_result
    by (cases rule: openDB_cases [of env_ok ?w]) (simp_all add: env_ok_def)
  moreover have "fst (getGalleryImageCount G env_ok ?w) = Resolved (length ?sorted)"
    unfolding getGalleryImageCount_result len
    by (cases rule: openDB_cases [of env_ok ?w]) (simp_all add: env_ok_def)
  ultimately show "\<exists>imgs. fst (loadGalleryImages G env_ok ?w) = Resolved imgs \<and>
            fst (getGalleryImageCount G env_ok ?w) = Resolved (length imgs)"
    by blast
  fix e1 e2 n imgs
  assume a: "fst (getGalleryImageCount G e1 ?w) = Resolved n \<and>
         fst (loadGalleryImages G e2 ?w) = Resolved imgs"
  have "n = index_count index_galleryId id_image (Only G) (images ?w)"
    using conjunct1 [OF a] unfolding getGalleryImageCount_result
    by (cases rule: openDB_cases [of e1 ?w]) (auto dest: settle_on_request_Resolved)
  moreover have "imgs = ?sorted"
    using conjunct2 [OF a] unfolding loadGalleryImages_result
    by (cases rule: openDB_cases [of e2 ?w]) (auto dest: settle_on_request_Resolved)
  ultimately show "n = length imgs"
    using len by simp
qed

text \<open>
  Claim C9. \<^verbatim>\<open>deleteGallery(G)\<close> touches nothing outside \<open>G\<close>: whatever the platform does,
  every gallery whose id is not \<open>G\<close> is afterwards stored under its id, unchanged, every
  image whose \<^verbatim>\<open>galleryId\<close> is not \<open>G\<close> is afterwards stored under its id, unchanged, and
  the galleries other than \<open>G\<close> and the images of other galleries are, as lists, what they
  were, so nothing is added either.
\<close>

theorem deleteGallery_frame:
  assumes "store_ok w"
  shows "(\<forall>h\<in>set (galleries w). id_gallery h \<noteq> G \<longrightarrow>
            store_get id_gallery (id_gallery h) (galleries (snd (deleteGallery G e w))) = Some h)
       \<and> (\<forall>img\<in>set (images w). galleryId img \<noteq> G \<longrightarrow>
            store_get id_image (id_image img) (images (snd (deleteGallery G e w))) = Some img)
       \<and> filter (\<lambda>g. id_gallery g \<noteq> G) (galleries (snd (deleteGallery G e w)))
            = filter (\<lambda>g. id_gallery g \<noteq> G) (galleries w)
       \<and> filter (\<lambda>i. galleryId i \<noteq> G) (images (snd (deleteGallery G e w)))
            = filter (\<lambda>i. galleryId i \<noteq> G) (images w)"
proof -
  let ?w = "snd (deleteGallery G e w)"
  have ok': "store_ok ?w"
    using store_ok_step [OF assms, of "(e, DeleteGallery G)"] by simp
  have gs: "filter (\<lambda>g. id_gallery g \<noteq> G) (galleries ?w) = filter (\<lambda>g. id_gallery g \<noteq> G) (galleries w)"
    and imgs: "filter (\<lambda>i. galleryId i \<noteq> G) (images ?w) = filter (\<lambda>i. galleryId i \<noteq> G) (images w)"
    using deleteGallery_stores [OF assms, of G e]
    by (cases "fst (deleteGallery G e w) = Resolved ()"; simp)+
  have "store_get id_gallery (id_gallery h) (galleries ?w) = Some h"
    if "h \<in> set (galleries w)" "id_gallery h \<noteq> G" for h
  proof -
    have "h \<in> set (filter (\<lambda>g. id_gallery g \<noteq> G) (galleries ?w))"
      unfolding gs using that by simp
    then have "h \<in> set (galleries ?w)" by simp
    then show ?thesis
      using ok' store_get_Some_iff [of id_gallery "galleries ?w" "id_gallery h" h]
      by (simp add: store_ok_def)
  qed
  moreover have "store_get id_image (id_image img) (images ?w) = Some img"
    if "img \<in> set (images w)" "galleryId img \<noteq> G" for img
  proof -
    have "img \<in> set (filter (\<lambda>i. galleryId i \<noteq> G) (images ?w))"
      unfolding imgs using that by simp
    then have "img \<in> set (images ?w)" by simp
    then show ?thesis
      using ok' store_get_Some_iff [of id_image "images ?w" "id_image img" img]
      by (simp add: store_ok_def)
  qed
  ultimately show ?thesis
    using gs imgs by blast
qed

text \<open>
  Claim C8, as amended. For an id that the galleries store does not hold,
  \<^verbatim>\<open>loadGallery(id)\<close> resolves with null unless the platform fails: it rejects when no
  connection is cached and the database cannot be opened, it rejects when the get request
  fails, and in every other case it resolves with null. Absence of the id is never a
  rejection.
\<close>

theorem loadGallery_absent:
  assumes "store_get id_gallery gid (galleries w) = None"
  shows "fst (loadGallery gid e w) =
           (if \<not> dbInstance w \<and> \<not> open_ok e then Rejected OpenFailed
            else if fate e = RequestError 0 then Rejected RequestFailed
            else Resolved None)"
  using assms
  by (cases rule: openDB_cases [of e w]; cases "fate e")
    (auto simp: loadGallery_def)

section \<open>Sorting and index order\<close>

lemma set_sort_insert: "set (sort_insert c a xs) = insert a (set xs)"
  by (induction xs) auto

lemma set_Array_sort: "set (Array_sort c xs) = set xs"
  by (induction xs) (auto simp: set_sort_insert)

lemma sort_insert_lex:
  fixes key :: "'a \<Rightarrow> int"
  assumes srt: "sorted_wrt (\<lambda>a b. key a < key b \<or> (key a = key b \<and> L a b)) ys"
    and first: "\<forall>y\<in>set ys. L x y"
    and cmp: "\<And>b. b \<in> set ys \<Longrightarrow> (sort_compare (c x b) \<le> 0) = (key x \<le> key b)"
  shows "sorted_wrt (\<lambda>a b. key a < key b \<or> (key a = key b \<and> L a b)) (sort_insert c x ys)"
  using srt first cmp
proof (induction ys)
  case Nil
  then show ?case by simp
next
  case (Cons y ys)
  have cxy: "(sort_compare (c x y) \<le> 0) = (key x \<le> key y)"
    using Cons.prems(3) by simp
  show ?case
  proof (cases "key x \<le> key y")
    case True
    have "key x < key z \<or> (key x = key z \<and> L x z)" if "z \<in> set (y # ys)" for z
    proof -
      have "key y \<le> key z" using Cons.prems(1) that by auto
      with True have "key x \<le> key z" by simp
      moreover have "L x z" using Cons.prems(2) that by auto
      ultimately show ?thesis by auto
    qed
    with True Cons.prems(1) show ?thesis by (simp add: cxy)
  next
    case False
    have "sorted_wrt (\<lambda>a b. key a < key b \<or> (key a = key b \<and> L a b)) (sort_insert c x ys)"
      using Cons by simp
    moreover have "key y < key z \<or> (key y = key z \<and> L y z)" if "z \<in> set (sort_insert c x ys)" for z
      using that False Cons.prems(1) by (auto simp: set_sort_insert)
    ultimately show ?thesis using False by (simp add: cxy)
  qed
qed

lemma Array_sort_lex:
  fixes key :: "'a \<Rightarrow> int"
  assumes srt: "sorted_wrt L xs"
    and cmp: "\<And>a b. a \<in> set xs \<Longrightarrow> b \<in> set xs \<Longrightarrow>
                (sort_compare (c a b) \<le> 0) = (key a \<le> key b)"
  shows "sorted_wrt (\<lambda>a b. key a < key b \<or> (key a = key b \<and> L a b)) (Array_sort c xs)"
  using srt cmp
proof (induction xs)
  case Nil
  then show ?case by simp
next
  case (Cons x xs)
  have "\<forall>y\<in>set (Array_sort c xs). L x y"
    using Cons.prems(1) by (simp add: set_Array_sort)
  moreover have "sorted_wrt (\<lambda>a b. key a < key b \<or> (key a = key b \<and> L a b)) (Array_sort c xs)"
    using Cons by simp
  moreover have "(sort_compare (c x b) \<le> 0) = (key x \<le> key b)" if "b \<in> set (Array_sort c xs)" for b
    using that Cons.prems(2) by (simp add: set_Array_sort)
  ultimately show ?case
    using sort_insert_lex [of key L "Array_sort c xs" x c] by simp
qed

lemma strict_by_key:
  fixes f :: "'v \<Rightarrow> 'k::linorder"
  assumes "sorted (map f xs)" "distinct xs" "inj_on f (set xs)"
  shows "sorted_wrt (\<lambda>a b. f a < f b) xs"
proof -
  have "distinct (map f xs)"
    using assms(2,3) by (simp add: distinct_map)
  with assms(1) have "sorted_wrt (<) (map f xs)"
    using strict_sorted_iff [of "map f xs"] by blast
  then show ?thesis
    by (simp add: sorted_wrt_map)
qed

lemma index_strict:
  fixes ikey :: "'v \<Rightarrow> 'k::linorder option"
  assumes "sorted_wrt (<) (map pk s)"
  shows "sorted_wrt (\<lambda>a b. (ikey a, pk a) < (ikey b, pk b)) (filter P (index_records ikey pk s))"
proof (rule strict_by_key)
  let ?f = "\<lambda>v. (ikey v, pk v)"
  show "sorted (map ?f (filter P (index_records ikey pk s)))"
    unfolding index_records_def by (rule sorted_filter) (rule sorted_sort_key)
  have "distinct (map pk s)"
    using assms strict_sorted_iff [of "map pk s"] by blast
  then have "distinct s" by (simp add: distinct_map)
  then show "distinct (filter P (index_records ikey pk s))"
    by (simp add: index_records_def)
  show "inj_on ?f (set (filter P (index_records ikey pk s)))"
  proof (rule inj_onI)
    fix a b
    assume "a \<in> set (filter P (index_records ikey pk s))" "b \<in> set (filter P (index_records ikey pk s))"
      and eq: "(ikey a, pk a) = (ikey b, pk b)"
    then have "a \<in> set s" "b \<in> set s" by (simp_all add: index_records_def)
    moreover from eq have "pk a = pk b" by simp
    ultimately show "a = b" by (rule pk_unique [OF assms])
  qed
qed

lemma store_unique:
  fixes pk :: "'v \<Rightarrow> 'k::linorder"
  assumes "sorted_wrt (<) (map pk xs)" "sorted_wrt (<) (map pk ys)" "set xs = set ys"
  shows "xs = ys"
proof -
  have "map pk ys = map pk xs"
    by (rule strict_sorted_equal [OF assms(1,2)]) (simp add: assms(3))
  then have "map pk xs = map pk ys" by simp
  moreover have "inj_on pk (set xs \<union> set ys)"
    using pk_inj_on [OF assms(1)] assms(3) by simp
  ultimately show ?thesis
    using inj_on_map_eq_map by blast
qed

section \<open>Order of the loaded lists\<close>

lemma loadAllGalleries_result:
  "fst (loadAllGalleries e w) =
     (case openDB e w of
        Inl err \<Rightarrow> Rejected err
      | Inr w1 \<Rightarrow>
          settle_on_request
            (finish_txn (fate e) (Suc (index_count index_createdAt id_gallery Unbounded (galleries w))))
            (rev (index_records index_createdAt id_gallery (galleries w))))"
  by (cases rule: openDB_cases [of e w])
    (simp_all add: loadAllGalleries_def Let_def walk_push openCursor_def index_count_def)

lemma openDB_env_ok: "openDB env_ok w = Inr (w\<lparr>dbInstance := True\<rparr>)"
  by (cases rule: openDB_cases [of env_ok w]) (simp_all add: env_ok_def)

lemma loadGalleryImages_env_ok:
  "fst (loadGalleryImages G env_ok w) =
     Resolved (Array_sort (\<lambda>a b. number_minus (timestamp b) (timestamp a))
       (filter (\<lambda>v. galleryId v = G) (index_records index_galleryId id_image (images w))))"
  unfolding loadGalleryImages_result openDB_env_ok
  by (simp add: env_ok_def openCursor_def index_galleryId_def)

lemma loadAllGalleries_env_ok:
  "fst (loadAllGalleries env_ok w) = Resolved (rev (index_records index_createdAt id_gallery (galleries w)))"
  unfolding loadAllGalleries_result openDB_env_ok
  by (simp add: env_ok_def)

lemma number_key_None: "(number_key n = None) = (n = NaN)"
  by (cases n) simp_all

lemma set_index_createdAt:
  "set (index_records index_createdAt id_gallery s) = {g \<in> set s. createdAt g \<noteq> NaN}"
  by (auto simp: index_records_def index_createdAt_def number_key_None simp del: not_None_eq)

lemma set_index_galleryId:
  "set (filter (\<lambda>v. galleryId v = G) (index_records index_galleryId id_image s))
     = {i \<in> set s. galleryId i = G}"
  by (auto simp: index_records_def index_galleryId_def)

lemma images_sorted:
  assumes "sorted_wrt (<) (map id_image s)"
    and "\<forall>i\<in>set s. galleryId i = G \<longrightarrow> timestamp i \<noteq> NaN"
  shows "sorted_wrt (\<lambda>a b. number_le (timestamp b) (timestamp a) \<and>
                   (timestamp a = timestamp b \<longrightarrow> id_image a < id_image b))
           (Array_sort (\<lambda>a b. number_minus (timestamp b) (timestamp a))
              (filter (\<lambda>v. galleryId v = G) (index_records index_galleryId id_image s)))"
proof -
  let ?hits = "filter (\<lambda>v. galleryId v = G) (index_records index_galleryId id_image s)"
  let ?c = "\<lambda>a b. number_minus (timestamp b) (timestamp a)"
  let ?key = "\<lambda>a. - sort_compare (timestamp a)"
  have num: "\<exists>t. timestamp a = Num t" if "a \<in> set ?hits" for a
  proof -
    from that have "a \<in> set s" "galleryId a = G"
      unfolding set_index_galleryId by simp_all
    with assms(2) have "timestamp a \<noteq> NaN" by blast
    then show ?thesis by (cases "timestamp a") simp_all
  qed
  have "sorted_wrt (\<lambda>a b. (index_galleryId a, id_image a) < (index_galleryId b, id_image b)) ?hits"
    by (rule index_strict [OF assms(1)])
  then have byid: "sorted_wrt (\<lambda>a b. id_image a < id_image b) ?hits"
    by (rule sorted_wrt_mono_rel [rotated]) (simp add: index_galleryId_def)
  have cmp: "(sort_compare (?c a b) \<le> 0) = (?key a \<le> ?key b)"
    if "a \<in> set ?hits" "b \<in> set ?hits" for a b
    using num [OF that(1)] num [OF that(2)] by auto
  have "sorted_wrt (\<lambda>a b. ?key a < ?key b \<or> (?key a = ?key b \<and> id_image a < id_image b))
          (Array_sort ?c ?hits)"
    by (rule Array_sort_lex [OF byid cmp])
  then show ?thesis
  proof (rule sorted_wrt_mono_rel [rotated])
    fix a b
    assume "a \<in> set (Array_sort ?c ?hits)" "b \<in> set (Array_sort ?c ?hits)"
      and lex: "?key a < ?key b \<or> (?key a = ?key b \<and> id_image a < id_image b)"
    then obtain ta tb where "timestamp a = Num ta" "timestamp b = Num tb"
      using num [of a] num [of b] by (auto simp: set_Array_sort)
    with lex show "number_le (timestamp b) (timestamp a) \<and>
                   (timestamp a = timestamp b \<longrightarrow> id_image a < id_image b)"
      by auto
  qed
qed

lemma galleries_sorted:
  assumes "sorted_wrt (<) (map id_gallery s)"
  shows "sorted_wrt (\<lambda>a b. number_le (createdAt b) (createdAt a) \<and>
                   (createdAt a = createdAt b \<longrightarrow> id_gallery b < id_gallery a))
           (rev (index_records index_createdAt id_gallery s))"
proof -
  let ?gs = "rev (index_records index_createdAt id_gallery s)"
  have "sorted_wrt (\<lambda>a b. (index_createdAt a, id_gallery a) < (index_createdAt b, id_gallery b))
          (filter (\<lambda>v. True) (index_records index_createdAt id_gallery s))"
    by (rule index_strict [OF assms])
  then have "sorted_wrt (\<lambda>a b. (index_createdAt b, id_gallery b) < (index_createdAt a, id_gallery a)) ?gs"
    by (simp add: sorted_wrt_rev)
  then show ?thesis
  proof (rule sorted_wrt_mono_rel [rotated])
    fix a b
    assume "a \<in> set ?gs" "b \<in> set ?gs"
      and lex: "(index_createdAt b, id_gallery b) < (index_createdAt a, id_gallery a)"
    then have "createdAt a \<noteq> NaN" "createdAt b \<noteq> NaN"
      by (simp_all add: set_index_createdAt)
    then obtain ta tb where "createdAt a = Num ta" "createdAt b = Num tb"
      by (cases "createdAt a"; cases "createdAt b") simp_all
    with lex show "number_le (createdAt b) (createdAt a) \<and>
                   (createdAt a = createdAt b \<longrightarrow> id_gallery b < id_gallery a)"
      by (auto simp: index_createdAt_def)
  qed
qed

text \<open>
  Claim C4, as amended. After any sequence of writing calls, started from well-formed stores
  (the empty database is one) and interleaved in any way, \<^verbatim>\<open>loadGalleryImages(G)\<close> resolves
  with exactly the stored images of \<open>G\<close>, and \<^verbatim>\<open>loadAllGalleries()\<close> resolves with exactly
  the stored galleries whose \<^verbatim>\<open>createdAt\<close> is not \<^verbatim>\<open>NaN\<close>, newest \<^verbatim>\<open>createdAt\<close> first;
  when no image of \<open>G\<close> has the timestamp \<^verbatim>\<open>NaN\<close>, the images come newest timestamp first.
  Ties are broken by a fixed rule: images with equal timestamps come in ascending order of
  their ids, galleries with equal \<^verbatim>\<open>createdAt\<close> in descending order of their ids. Both
  results are functions of the set of stored records: any other sequence of calls that
  leaves the same records stored makes the loads return the same lists.
\<close>

theorem load_ordering:
  assumes "store_ok w0"
  shows "\<exists>imgs gs.
      fst (loadGalleryImages G env_ok (exec cs w0)) = Resolved imgs
    \<and> fst (loadAllGalleries env_ok (exec cs w0)) = Resolved gs
    \<and> set imgs = {i \<in> set (images (exec cs w0)). galleryId i = G}
    \<and> ((\<forall>i\<in>set (images (exec cs w0)). galleryId i = G \<longrightarrow> timestamp i \<noteq> NaN) \<longrightarrow>
          sorted_wrt (\<lambda>a b. number_le (timestamp b) (timestamp a)) imgs
        \<and> sorted_wrt (\<lambda>a b. timestamp a = timestamp b \<longrightarrow> id_image a < id_image b) imgs)
    \<and> set gs = {g \<in> set (galleries (exec cs w0)). createdAt g \<noteq> NaN}
    \<and> sorted_wrt (\<lambda>a b. number_le (createdAt b) (createdAt a)) gs
    \<and> sorted_wrt (\<lambda>a b. createdAt a = createdAt b \<longrightarrow> id_gallery b < id_gallery a) gs
    \<and> (\<forall>cs'. set (images (exec cs' w0)) = set (images (exec cs w0)) \<longrightarrow>
          fst (loadGalleryImages G env_ok (exec cs' w0)) = Resolved imgs)
    \<and> (\<forall>cs'. set (galleries (exec cs' w0)) = set (galleries (exec cs w0)) \<longrightarrow>
          fst (loadAllGalleries env_ok (exec cs' w0)) = Resolved gs)"
proof -
  let ?w = "exec cs w0"
  let ?imgs = "Array_sort (\<lambda>a b. number_minus (timestamp b) (timestamp a))
       (filter (\<lambda>v. galleryId v = G) (index_records index_galleryId id_image (images ?w)))"
  let ?gs = "rev (index_records index_createdAt id_gallery (galleries ?w))"
  have ok: "sorted_wrt (<) (map id_gallery (galleries (exec cs' w0)))"
    "sorted_wrt (<) (map id_image (images (exec cs' w0)))" for cs'
    using store_ok_exec [OF assms, of cs'] by (simp_all add: store_ok_def)
  have 1: "fst (loadGalleryImages G env_ok ?w) = Resolved ?imgs"
    by (rule loadGalleryImages_env_ok)
  have 2: "fst (loadAllGalleries env_ok ?w) = Resolved ?gs"
    by (rule loadAllGalleries_env_ok)
  have 3: "set ?imgs = {i \<in> set (images ?w). galleryId i = G}"
    unfolding set_Array_sort by (rule set_index_galleryId)
  have 4: "sorted_wrt (\<lambda>a b. number_le (timestamp b) (timestamp a)) ?imgs
        \<and> sorted_wrt (\<lambda>a b. timestamp a = timestamp b \<longrightarrow> id_image a < id_image b) ?imgs"
    if nonan: "\<forall>i\<in>set (images ?w). galleryId i = G \<longrightarrow> timestamp i \<noteq> NaN"
  proof -
    have lex: "sorted_wrt (\<lambda>a b. number_le (timestamp b) (timestamp a) \<and>
        (timestamp a = timestamp b \<longrightarrow> id_image a < id_image b)) ?imgs"
      by (rule images_sorted [OF ok(2) nonan])
    have "sorted_wrt (\<lambda>a b. number_le (timestamp b) (timestamp a)) ?imgs"
      using lex by (rule sorted_wrt_mono_rel [rotated]) simp
    moreover have "sorted_wrt (\<lambda>a b. timestamp a = timestamp b \<longrightarrow> id_image a < id_image b) ?imgs"
      using lex by (rule sorted_wrt_mono_rel [rotated]) simp
    ultimately show ?thesis by simp
  qed
  have 6: "set ?gs = {g \<in> set (galleries ?w). createdAt g \<noteq> NaN}"
    by (simp add: set_index_createdAt)
  have glex: "sorted_wrt (\<lambda>a b. number_le (createdAt b) (createdAt a) \<and>
        (createdAt a = createdAt b \<longrightarrow> id_gallery b < id_gallery a)) ?gs"
    by (rule galleries_sorted [OF ok(1)])
  have 7: "sorted_wrt (\<lambda>a b. number_le (createdAt b) (createdAt a)) ?gs"
    using glex by (rule sorted_wrt_mono_rel [rotated]) simp
  have 8: "sorted_wrt (\<lambda>a b. createdAt a = createdAt b \<longrightarrow> id_gallery b < id_gallery a) ?gs"
    using glex by (rule sorted_wrt_mono_rel [rotated]) simp
  have 9: "fst (loadGalleryImages G env_ok (exec cs' w0)) = Resolved ?imgs"
    if "set (images (exec cs' w0)) = set (images ?w)" for cs'
  proof -
    have "images (exec cs' w0) = images ?w"
      by (rule store_unique [OF ok(2) ok(2) that])
    then show ?thesis by (simp add: loadGalleryImages_env_ok)
  qed
  have 10: "fst (loadAllGalleries env_ok (exec cs' w0)) = Resolved ?gs"
    if "set (galleries (exec cs' w0)) = set (galleries ?w)" for cs'
  proof -
    have "galleries (exec cs' w0) = galleries ?w"
      by (rule store_unique [OF ok(1) ok(1) that])
    then show ?thesis by (simp add: loadAllGalleries_env_ok)
  qed
  from 1 2 3 4 6 7 8 9 10 show ?thesis by blast
qed

section \<open>Batch save, and clearing the images\<close>

lemma find_snoc:
  "find P (xs @ [x]) = (case find P xs of Some y \<Rightarrow> Some y | None \<Rightarrow> if P x then Some x else None)"
  by (induction xs) auto

lemma store_get_fold_put:
  "sorted_wrt (<) (map pk xs) \<Longrightarrow>
   store_get pk k (fold (store_put pk) vs xs) =
     (case find (\<lambda>v. pk v = k) (rev vs) of Some v \<Rightarrow> Some v | None \<Rightarrow> store_get pk k xs)"
proof (induction vs arbitrary: xs)
  case Nil
  then show ?case by simp
next
  case (Cons v vs)
  have "sorted_wrt (<) (map pk (store_put pk v xs))"
    by (rule sorted_store_put [OF Cons.prems])
  from Cons.IH [OF this] show ?case
    by (simp add: find_snoc store_get_put [OF Cons.prems] split: option.split)
qed

lemma find_last_distinct:
  "distinct (map pk vs) \<Longrightarrow> v \<in> set vs \<Longrightarrow> find (\<lambda>x. pk x = pk v) (rev vs) = Some v"
proof (induction vs)
  case Nil
  then show ?case by simp
next
  case (Cons a vs)
  show ?case
  proof (cases "v \<in> set vs")
    case True
    with Cons show ?thesis by (simp add: find_snoc)
  next
    case False
    with Cons.prems have va: "v = a" by simp
    have "pk a \<notin> pk ` set vs"
      using Cons.prems(1) by simp
    then have "\<not> (\<exists>x. x \<in> set (rev vs) \<and> pk x = pk a)"
      by (metis imageI set_rev)
    then have "find (\<lambda>x. pk x = pk a) (rev vs) = None"
      using find_None_iff [of "\<lambda>x. pk x = pk a" "rev vs"] by blast
    with va show ?thesis by (simp add: find_snoc)
  qed
qed

lemma saveImages_stores:
  "snd (saveImages imgs e w) =
     (if (dbInstance w \<or> open_ok e) \<and> finish_txn (fate e) (length imgs) = Complete
      then w\<lparr>dbInstance := True, images := fold (store_put id_image) imgs (images w)\<rparr>
      else if dbInstance w \<or> open_ok e then w\<lparr>dbInstance := True\<rparr> else w)"
  by (cases rule: openDB_cases [of e w])
    (auto simp: saveImages_def txn_state_if)

lemma saveImages_resolved:
  "(fst (saveImages imgs e w) = Resolved ()) =
     ((dbInstance w \<or> open_ok e) \<and> finish_txn (fate e) (length imgs) = Complete)"
  by (cases rule: openDB_cases [of e w]; cases "finish_txn (fate e) (length imgs)")
    (auto simp: saveImages_def)

text \<open>
  Claim C2, as amended. \<^verbatim>\<open>saveImages\<close> is all or nothing. Its promise resolves exactly when
  the connection is available and the one transaction commits, and then the images store is
  the previous store with all the puts applied in list order: under every id, the last
  record of the batch with that id if there is one, the record stored before otherwise; so
  every record of a batch with pairwise distinct ids is visible. When the promise does not
  resolve, the images store is what it was before, whichever request failed. The galleries
  store is never touched.
\<close>

theorem saveImages_atomic:
  assumes "store_ok w"
  shows "(fst (saveImages imgs e w) = Resolved () \<longrightarrow>
            (\<forall>k. store_get id_image k (images (snd (saveImages imgs e w))) =
                 (case find (\<lambda>v. id_image v = k) (rev imgs) of
                    Some v \<Rightarrow> Some v
                  | None \<Rightarrow> store_get id_image k (images w)))
          \<and> (distinct (map id_image imgs) \<longrightarrow>
               (\<forall>img\<in>set imgs.
                  store_get id_image (id_image img) (images (snd (saveImages imgs e w))) = Some img)))
       \<and> (fst (saveImages imgs e w) \<noteq> Resolved () \<longrightarrow>
            images (snd (saveImages imgs e w)) = images w)
       \<and> galleries (snd (saveImages imgs e w)) = galleries w
       \<and> ((fst (saveImages imgs e w) = Resolved ()) =
            ((dbInstance w \<or> open_ok e) \<and> finish_txn (fate e) (length imgs) = Complete))"
proof -
  have srt: "sorted_wrt (<) (map id_image (images w))"
    using assms by (simp add: store_ok_def)
  have get: "store_get id_image k (images (snd (saveImages imgs e w))) =
                 (case find (\<lambda>v. id_image v = k) (rev imgs) of
                    Some v \<Rightarrow> Some v
                  | None \<Rightarrow> store_get id_image k (images w))"
    if "fst (saveImages imgs e w) = Resolved ()" for k
    using that unfolding saveImages_resolved saveImages_stores
    by (simp add: store_get_fold_put [OF srt])
  have vis: "store_get id_image (id_image img) (images (snd (saveImages imgs e w))) = Some img"
    if "fst (saveImages imgs e w) = Resolved ()" "distinct (map id_image imgs)" "img \<in> set imgs" for img
    unfolding get [OF that(1)] by (simp add: find_last_distinct [OF that(2,3)])
  have same: "images (snd (saveImages imgs e w)) = images w"
    if "fst (saveImages imgs e w) \<noteq> Resolved ()"
    using that unfolding saveImages_resolved saveImages_stores by auto
  have gal: "galleries (snd (saveImages imgs e w)) = galleries w"
    unfolding saveImages_stores by simp
  from get vis same gal saveImages_resolved [of imgs e w] show ?thesis
    by blast
qed


section \<open>The cover image, and update stamps\<close>

lemma Array_sort_newest_first:
  assumes "\<forall>a\<in>set xs. timestamp a \<noteq> NaN"
  shows "sorted_wrt (\<lambda>a b. number_le (timestamp b) (timestamp a))
           (Array_sort (\<lambda>a b. number_minus (timestamp b) (timestamp a)) xs)"
proof -
  let ?c = "\<lambda>a b. number_minus (timestamp b) (timestamp a)"
  let ?key = "\<lambda>a. - sort_compare (timestamp a)"
  have num: "\<exists>t. timestamp a = Num t" if "a \<in> set xs" for a
    using assms that by (cases "timestamp a") auto
  have cmp: "(sort_compare (?c a b) \<le> 0) = (?key a \<le> ?key b)"
    if "a \<in> set xs" "b \<in> set xs" for a b
    using num [OF that(1)] num [OF that(2)] by auto
  have "sorted_wrt (\<lambda>a b. ?key a < ?key b \<or> (?key a = ?key b \<and> True)) (Array_sort ?c xs)"
    by (rule Array_sort_lex [where L = "\<lambda>a b. True", OF _ cmp]) simp_all
  then show ?thesis
  proof (rule sorted_wrt_mono_rel [rotated])
    fix a b
    assume "a \<in> set (Array_sort ?c xs)" "b \<in> set (Array_sort ?c xs)"
      and lex: "?key a < ?key b \<or> (?key a = ?key b \<and> True)"
    then obtain ta tb where "timestamp a = Num ta" "timestamp b = Num tb"
      using num [of a] num [of b] by (auto simp: set_Array_sort)
    with lex show "number_le (timestamp b) (timestamp a)" by auto
  qed
qed

lemma getGalleryCoverImage_result:
  "fst (getGalleryCoverImage G e w) =
     (case fst (loadGalleryImages G e w) of
        Resolved imgs \<Rightarrow> Resolved (case imgs of [] \<Rightarrow> None | x # _ \<Rightarrow> Some x)
      | Rejected err \<Rightarrow> Rejected err
      | Pending \<Rightarrow> Pending)"
proof -
  obtain r w1 where lw: "loadGalleryImages G e w = (r, w1)"
    by (cases "loadGalleryImages G e w")
  show ?thesis
    unfolding getGalleryCoverImage_def lw
    by (cases r) (auto split: list.split)
qed

text \<open>
  Claim C5. After any sequence of writing calls and on any platform,
  \<^verbatim>\<open>getGalleryCoverImage(G)\<close> settles as \<^verbatim>\<open>loadGalleryImages(G)\<close> does, with the head of
  the loaded list when the list is not empty and with null when it is. It does not read the
  galleries store (no stored \<^verbatim>\<open>coverImageId\<close> enters it): replacing that store changes
  nothing. Hence a resolved cover is null exactly when no image of \<open>G\<close> is stored, and is
  otherwise a stored image of \<open>G\<close>, one whose timestamp no other image of \<open>G\<close> exceeds
  when the timestamps of the images of \<open>G\<close> are numbers.
\<close>

theorem cover_derivation:
  "fst (getGalleryCoverImage G e (exec cs w)) =
     (case fst (loadGalleryImages G e (exec cs w)) of
        Resolved imgs \<Rightarrow> Resolved (case imgs of [] \<Rightarrow> None | x # _ \<Rightarrow> Some x)
      | Rejected err \<Rightarrow> Rejected err
      | Pending \<Rightarrow> Pending)
   \<and> fst (getGalleryCoverImage G e ((exec cs w)\<lparr>galleries := gs\<rparr>)) =
       fst (getGalleryCoverImage G e (exec cs w))
   \<and> (\<forall>cover. fst (getGalleryCoverImage G e (exec cs w)) = Resolved cover \<longrightarrow>
        (case cover of
           None \<Rightarrow> \<forall>i\<in>set (images (exec cs w)). galleryId i \<noteq> G
         | Some x \<Rightarrow>
             x \<in> set (images (exec cs w)) \<and> galleryId x = G \<and>
             ((\<forall>i\<in>set (images (exec cs w)). galleryId i = G \<longrightarrow> timestamp i \<noteq> NaN) \<longrightarrow>
              (\<forall>i\<in>set (images (exec cs w)). galleryId i = G \<longrightarrow>
                 number_le (timestamp i) (timestamp x)))))"
proof (intro conjI allI impI)
  let ?w = "exec cs w"
  let ?hits = "openCursor index_galleryId id_image (Only G) Next (images ?w)"
  let ?sorted = "Array_sort (\<lambda>a b. number_minus (timestamp b) (timestamp a)) ?hits"
  show "fst (getGalleryCoverImage G e ?w) =
     (case fst (loadGalleryImages G e ?w) of
        Resolved imgs \<Rightarrow> Resolved (case imgs of [] \<Rightarrow> None | x # _ \<Rightarrow> Some x)
      | Rejected err \<Rightarrow> Rejected err
      | Pending \<Rightarrow> Pending)"
    by (rule getGalleryCoverImage_result)
  have "fst (loadGalleryImages G e (?w\<lparr>galleries := gs\<rparr>)) = fst (loadGalleryImages G e ?w)"
    unfolding loadGalleryImages_result by (simp add: openDB_def)
  then show "fst (getGalleryCoverImage G e (?w\<lparr>galleries := gs\<rparr>)) = fst (getGalleryCoverImage G e ?w)"
    unfolding getGalleryCoverImage_result by simp
  fix cover
  assume c: "fst (getGalleryCoverImage G e ?w) = Resolved cover"
  have "fst (loadGalleryImages G e ?w) = Resolved ?sorted"
  proof (cases "fst (loadGalleryImages G e ?w)")
    case (Resolved imgs)
    then have "imgs = ?sorted"
      unfolding loadGalleryImages_result
      by (cases rule: openDB_cases [of e ?w]) (auto dest: settle_on_request_Resolved)
    with Resolved show ?thesis by simp
  next
    case (Rejected err)
    with c show ?thesis by (simp add: getGalleryCoverImage_result)
  next
    case Pending
    with c show ?thesis by (simp add: getGalleryCoverImage_result)
  qed
  with c have cover: "cover = (case ?sorted of [] \<Rightarrow> None | x # _ \<Rightarrow> Some x)"
    by (simp add: getGalleryCoverImage_result)
  have mem: "set ?sorted = {i \<in> set (images ?w). galleryId i = G}"
    unfolding set_Array_sort by (rule set_cursor_galleryId)
  show "case cover of
           None \<Rightarrow> \<forall>i\<in>set (images ?w). galleryId i \<noteq> G
         | Some x \<Rightarrow>
             x \<in> set (images ?w) \<and> galleryId x = G \<and>
             ((\<forall>i\<in>set (images ?w). galleryId i = G \<longrightarrow> timestamp i \<noteq> NaN) \<longrightarrow>
              (\<forall>i\<in>set (images ?w). galleryId i = G \<longrightarrow> number_le (timestamp i) (timestamp x)))"
  proof (cases ?sorted)
    case Nil
    with mem have "{i \<in> set (images ?w). galleryId i = G} = {}" by simp
    with Nil cover show ?thesis by auto
  next
    case (Cons x rest)
    with mem have x: "x \<in> set (images ?w)" "galleryId x = G" by auto
    have "number_le (timestamp i) (timestamp x)"
      if nonan: "\<forall>i\<in>set (images ?w). galleryId i = G \<longrightarrow> timestamp i \<noteq> NaN"
        and i: "i \<in> set (images ?w)" "galleryId i = G" for i
    proof -
      have "\<forall>a\<in>set ?hits. timestamp a \<noteq> NaN"
        using nonan unfolding set_cursor_galleryId by simp
      then have srt: "sorted_wrt (\<lambda>a b. number_le (timestamp b) (timestamp a)) ?sorted"
        by (rule Array_sort_newest_first)
      from i mem Cons have "i = x \<or> i \<in> set rest" by auto
      moreover have "number_le (timestamp x) (timestamp x)"
        using nonan x by (cases "timestamp x") auto
      ultimately show ?thesis using srt Cons by auto
    qed
    with x Cons cover show ?thesis by simp
  qed
qed




section \<open>Update stamps and identifiers\<close>



text \<open>
  Claim C7, at inputs where the code departs from it. The claim asks for identifiers of at
  least nine characters. When \<^verbatim>\<open>Math.random()\<close> returns one half, its base-36 text is
  \<^verbatim>\<open>0.i\<close> and the generated id is the single character \<^verbatim>\<open>i\<close>; when it returns zero, the
  text is \<^verbatim>\<open>0\<close> and the id is empty. \<^verbatim>\<open>createGallery\<close> stores the gallery under that id,
  and since \<^verbatim>\<open>put\<close> overwrites, a second gallery created from the same text replaces the
  first.
\<close>

theorem generated_id_short:
  "generate_id ''0.i'' = ''i''
   \<and> generate_id ''0'' = []
   \<and> fst (createGallery ''Trip'' None ''0.i'' 100 100 env_ok init_world)
       = Resolved (new_gallery ''Trip'' None ''0.i'' 100 100)
   \<and> id_gallery (new_gallery ''Trip'' None ''0.i'' 100 100) = ''i''
   \<and> length (id_gallery (new_gallery ''Trip'' None ''0.i'' 100 100)) = 1
   \<and> map name (galleries (exec
        [(env_ok, CreateGallery ''Trip'' None ''0.i'' 100 100),
         (env_ok, CreateGallery ''Home'' None ''0.i'' 101 101)] init_world)) = [''Home'']"
  by code_simp

text \<open>
  Claim C8 as stated, with rejection only when the read transaction errors, fails: with no
  cached connection and a database that cannot be opened, \<^verbatim>\<open>loadGallery\<close> of an absent id
  rejects although no transaction was ever started.
\<close>

theorem loadGallery_absent_counterexample:
  "store_get id_gallery ''missing'' (galleries init_world) = None
   \<and> fate open_fails = Commits
   \<and> fst (loadGallery ''missing'' open_fails init_world) = Rejected OpenFailed"
  by code_simp

text \<open>
  Claim C2 as stated fails on both sides. A committed batch of two records with the same id
  leaves the first of them invisible; and a batch whose transaction aborts leaves visible
  the record of the batch that was stored, identically, before the call.
\<close>

theorem saveImages_atomic_counterexample:
  "fst (saveImages [example_image ''x'' ''g'' (Num 1), example_image ''x'' ''g'' (Num 2)]
          env_ok init_world) = Resolved ()
   \<and> store_get id_image ''x''
        (images (snd (saveImages [example_image ''x'' ''g'' (Num 1), example_image ''x'' ''g'' (Num 2)]
           env_ok init_world)))
      \<noteq> Some (example_image ''x'' ''g'' (Num 1))
   \<and> fst (saveImages [example_image ''x'' ''g'' (Num 1)] request_fails
        (snd (saveImage (example_image ''x'' ''g'' (Num 1)) env_ok init_world))) = Rejected RequestFailed
   \<and> store_get id_image ''x''
        (images (snd (saveImages [example_image ''x'' ''g'' (Num 1)] request_fails
           (snd (saveImage (example_image ''x'' ''g'' (Num 1)) env_ok init_world)))))
      = Some (example_image ''x'' ''g'' (Num 1))"
  by code_simp


text \<open>
  Claim C4 as stated, with all galleries returned, fails: \<^verbatim>\<open>updateGallery\<close> called with the
  record of the gallery Trip and \<^verbatim>\<open>createdAt\<close> set to \<^verbatim>\<open>NaN\<close> stores that record, which then
  has no entry in the \<^verbatim>\<open>createdAt\<close> index, and \<^verbatim>\<open>loadAllGalleries\<close> returns the gallery
  Home alone.
\<close>

theorem load_ordering_counterexample:
  "store_get id_gallery ''trip00001'' (galleries (exec nan_calls init_world))
     = Some ((new_gallery ''Trip'' None ''0.trip00001xyz'' 100 100)
               \<lparr>createdAt := NaN, updatedAt := Num 200\<rparr>)
   \<and> map id_gallery (galleries (exec nan_calls init_world)) = [''home00002'', ''trip00001'']
   \<and> fst (loadAllGalleries env_ok (exec nan_calls init_world))
       = Resolved [new_gallery ''Home'' (Some ''at home'') ''0.home00002abc'' 100 101]"
  by code_simp


section \<open>The statements at the example data\<close>

theorem deleteGallery_cascade_witness:
  "store_ok trip_world
   \<and> fst (deleteGallery ''trip00001'' env_ok trip_world) = Resolved ()
   \<and> fst (loadGalleryImages ''trip00001'' env_ok (snd (deleteGallery ''trip00001'' env_ok trip_world)))
       = Resolved []
   \<and> example_image ''img1'' ''trip00001'' (Num 20) \<in> set (images trip_world)
   \<and> store_get id_image ''img1'' (images (snd (deleteGallery ''trip00001'' env_ok trip_world))) = None
   \<and> fst (deleteGallery ''trip00001'' request_fails trip_world) \<noteq> Resolved ()
   \<and> images (snd (deleteGallery ''trip00001'' request_fails trip_world)) = images trip_world"
proof -
  have h: "store_ok trip_world" by code_simp
  have r: "fst (deleteGallery ''trip00001'' env_ok trip_world) = Resolved ()" by code_simp
  have m: "example_image ''img1'' ''trip00001'' (Num 20) \<in> set (images trip_world)" by code_simp
  have g: "galleryId (example_image ''img1'' ''trip00001'' (Num 20)) = ''trip00001''"
    and i: "id_image (example_image ''img1'' ''trip00001'' (Num 20)) = ''img1''" by code_simp+
  have f: "fst (deleteGallery ''trip00001'' request_fails trip_world) \<noteq> Resolved ()" by code_simp
  from deleteGallery_cascade [OF h, of "''trip00001''" env_ok] r m g i
  have "fst (loadGalleryImages ''trip00001'' env_ok (snd (deleteGallery ''trip00001'' env_ok trip_world)))
       = Resolved []"
    and "store_get id_image ''img1'' (images (snd (deleteGallery ''trip00001'' env_ok trip_world))) = None"
    by fastforce+
  moreover from deleteGallery_cascade [OF h, of "''trip00001''" request_fails] f
  have "images (snd (deleteGallery ''trip00001'' request_fails trip_world)) = images trip_world"
    by blast
  ultimately show ?thesis using h r m f by blast
qed

theorem saveImages_atomic_witness:
  "store_ok trip_world
   \<and> fst (saveImages [example_image ''img5'' ''trip00001'' (Num 40), example_image ''img1'' ''trip00001'' (Num 21)]
          env_ok trip_world) = Resolved ()
   \<and> distinct (map id_image [example_image ''img5'' ''trip00001'' (Num 40), example_image ''img1'' ''trip00001'' (Num 21)])
   \<and> store_get id_image ''img1''
        (images (snd (saveImages
           [example_image ''img5'' ''trip00001'' (Num 40), example_image ''img1'' ''trip00001'' (Num 21)]
           env_ok trip_world)))
       = Some (example_image ''img1'' ''trip00001'' (Num 21))
   \<and> fst (saveImages [example_image ''img5'' ''trip00001'' (Num 40), example_image ''img1'' ''trip00001'' (Num 21)]
          second_put_fails trip_world) \<noteq> Resolved ()
   \<and> images (snd (saveImages
          [example_image ''img5'' ''trip00001'' (Num 40), example_image ''img1'' ''trip00001'' (Num 21)]
          second_put_fails trip_world)) = images trip_world"
proof -
  let ?batch = "[example_image ''img5'' ''trip00001'' (Num 40), example_image ''img1'' ''trip00001'' (Num 21)]"
  have h: "store_ok trip_world" by code_simp
  have r: "fst (saveImages ?batch env_ok trip_world) = Resolved ()" by code_simp
  have d: "distinct (map id_image ?batch)" by code_simp
  have i: "id_image (example_image ''img1'' ''trip00001'' (Num 21)) = ''img1''" by code_simp
  have f: "fst (saveImages ?batch second_put_fails trip_world) \<noteq> Resolved ()" by code_simp
  from saveImages_atomic [OF h, of ?batch env_ok] r d
  have "\<forall>img\<in>set ?batch.
          store_get id_image (id_image img) (images (snd (saveImages ?batch env_ok trip_world))) = Some img"
    by blast
  then have "store_get id_image (id_image (example_image ''img1'' ''trip00001'' (Num 21)))
        (images (snd (saveImages ?batch env_ok trip_world))) = Some (example_image ''img1'' ''trip00001'' (Num 21))"
    by simp
  then have v: "store_get id_image ''img1'' (images (snd (saveImages ?batch env_ok trip_world)))
       = Some (example_image ''img1'' ''trip00001'' (Num 21))"
    unfolding i .
  from saveImages_atomic [OF h, of ?batch second_put_fails] f
  have "images (snd (saveImages ?batch second_put_fails trip_world)) = images trip_world"
    by blast
  with h r d v f show ?thesis by blast
qed

theorem count_consistency_witness:
  "fst (getGalleryImageCount ''trip00001'' env_ok (exec trip_calls init_world)) = Resolved 3
   \<and> fst (loadGalleryImages ''trip00001'' env_ok (exec trip_calls init_world))
       = Resolved [example_image ''img2'' ''trip00001'' (Num 30), example_image ''img3'' ''trip00001'' (Num 30),
                   example_image ''img1'' ''trip00001'' (Num 20)]
   \<and> (3::nat) = length [example_image ''img2'' ''trip00001'' (Num 30), example_image ''img3'' ''trip00001'' (Num 30),
                   example_image ''img1'' ''trip00001'' (Num 20)]"
proof -
  have c: "fst (getGalleryImageCount ''trip00001'' env_ok (exec trip_calls init_world)) = Resolved 3"
    by code_simp
  have l: "fst (loadGalleryImages ''trip00001'' env_ok (exec trip_calls init_world))
       = Resolved [example_image ''img2'' ''trip00001'' (Num 30), example_image ''img3'' ''trip00001'' (Num 30),
                   example_image ''img1'' ''trip00001'' (Num 20)]"
    by code_simp
  from count_consistency [of "''trip00001''" trip_calls init_world] c l show ?thesis
    by blast
qed

theorem load_ordering_witness:
  "store_ok init_world
   \<and> list_all (\<lambda>i. galleryId i = ''trip00001'' \<longrightarrow> timestamp i \<noteq> NaN)
        (images (exec trip_calls init_world))
   \<and> fst (loadGalleryImages ''trip00001'' env_ok (exec trip_calls init_world))
       = Resolved [example_image ''img2'' ''trip00001'' (Num 30), example_image ''img3'' ''trip00001'' (Num 30),
                   example_image ''img1'' ''trip00001'' (Num 20)]
   \<and> sorted_wrt (\<lambda>a b. number_le (timestamp b) (timestamp a))
        [example_image ''img2'' ''trip00001'' (Num 30), example_image ''img3'' ''trip00001'' (Num 30),
         example_image ''img1'' ''trip00001'' (Num 20)]
   \<and> sorted_wrt (\<lambda>a b. timestamp a = timestamp b \<longrightarrow> id_image a < id_image b)
        [example_image ''img2'' ''trip00001'' (Num 30), example_image ''img3'' ''trip00001'' (Num 30),
         example_image ''img1'' ''trip00001'' (Num 20)]
   \<and> fst (loadAllGalleries env_ok (exec trip_calls init_world))
       = Resolved [new_gallery ''Trip'' None ''0.trip00001xyz'' 100 100,
                   new_gallery ''Home'' (Some ''at home'') ''0.home00002abc'' 100 101]
   \<and> sorted_wrt (\<lambda>a b. number_le (createdAt b) (createdAt a))
        [new_gallery ''Trip'' None ''0.trip00001xyz'' 100 100,
         new_gallery ''Home'' (Some ''at home'') ''0.home00002abc'' 100 101]
   \<and> sorted_wrt (\<lambda>a b. createdAt a = createdAt b \<longrightarrow> id_gallery b < id_gallery a)
        [new_gallery ''Trip'' None ''0.trip00001xyz'' 100 100,
         new_gallery ''Home'' (Some ''at home'') ''0.home00002abc'' 100 101]"
proof -
  have h: "store_ok init_world" by code_simp
  have n: "list_all (\<lambda>i. galleryId i = ''trip00001'' \<longrightarrow> timestamp i \<noteq> NaN)
        (images (exec trip_calls init_world))" by code_simp
  then have n': "\<forall>i\<in>set (images (exec trip_calls init_world)).
      galleryId i = ''trip00001'' \<longrightarrow> timestamp i \<noteq> NaN"
    by (simp only: list_all_iff)
  have l: "fst (loadGalleryImages ''trip00001'' env_ok (exec trip_calls init_world))
       = Resolved [example_image ''img2'' ''trip00001'' (Num 30), example_image ''img3'' ''trip00001'' (Num 30),
                   example_image ''img1'' ''trip00001'' (Num 20)]"
    by code_simp
  have g: "fst (loadAllGalleries env_ok (exec trip_calls init_world))
       = Resolved [new_gallery ''Trip'' None ''0.trip00001xyz'' 100 100,
                   new_gallery ''Home'' (Some ''at home'') ''0.home00002abc'' 100 101]"
    by code_simp
  from load_ordering [OF h, of "''trip00001''" trip_calls]
  obtain imgs gs where r:
    "fst (loadGalleryImages ''trip00001'' env_ok (exec trip_calls init_world)) = Resolved imgs"
    "fst (loadAllGalleries env_ok (exec trip_calls init_world)) = Resolved gs"
    "(\<forall>i\<in>set (images (exec trip_calls init_world)). galleryId i = ''trip00001'' \<longrightarrow> timestamp i \<noteq> NaN) \<longrightarrow>
          sorted_wrt (\<lambda>a b. number_le (timestamp b) (timestamp a)) imgs
        \<and> sorted_wrt (\<lambda>a b. timestamp a = timestamp b \<longrightarrow> id_image a < id_image b) imgs"
    "sorted_wrt (\<lambda>a b. number_le (createdAt b) (createdAt a)) gs"
    "sorted_wrt (\<lambda>a b. createdAt a = createdAt b \<longrightarrow> id_gallery b < id_gallery a) gs"
    by blast
  from r(1) l have i: "imgs = [example_image ''img2'' ''trip00001'' (Num 30),
      example_image ''img3'' ''trip00001'' (Num 30), example_image ''img1'' ''trip00001'' (Num 20)]"
    by simp
  from r(2) g have j: "gs = [new_gallery ''Trip'' None ''0.trip00001xyz'' 100 100,
                   new_gallery ''Home'' (Some ''at home'') ''0.home00002abc'' 100 101]"
    by simp
  from r(3) n' have s: "sorted_wrt (\<lambda>a b. number_le (timestamp b) (timestamp a)) imgs"
    "sorted_wrt (\<lambda>a b. timestamp a = timestamp b \<longrightarrow> id_image a < id_image b) imgs"
    by blast+
  show ?thesis
    using h n l g s [unfolded i] r(4,5) [unfolded j] by (intro conjI)
qed

theorem cover_derivation_witness:
  "fst (loadGalleryImages ''trip00001'' env_ok (exec cover_calls init_world))
       = Resolved [example_image ''img2'' ''trip00001'' (Num 30), example_image ''img3'' ''trip00001'' (Num 30),
                   example_image ''img7'' ''trip00001'' (Num 30), example_image ''img1'' ''trip00001'' (Num 20)]
   \<and> fst (getGalleryCoverImage ''trip00001'' env_ok (exec cover_calls init_world))
       = Resolved (Some (example_image ''img2'' ''trip00001'' (Num 30)))
   \<and> list_all (\<lambda>i. galleryId i = ''trip00001'' \<longrightarrow> timestamp i \<noteq> NaN)
        (images (exec cover_calls init_world))
   \<and> list_all (\<lambda>i. galleryId i = ''trip00001'' \<longrightarrow>
          number_le (timestamp i) (timestamp (example_image ''img2'' ''trip00001'' (Num 30))))
        (images (exec cover_calls init_world))
   \<and> fst (loadGalleryImages ''nobody'' env_ok (exec cover_calls init_world)) = Resolved []
   \<and> fst (getGalleryCoverImage ''nobody'' env_ok (exec cover_calls init_world)) = Resolved None
   \<and> fst (getGalleryCoverImage ''trip00001'' request_fails (exec cover_calls init_world))
       = Rejected RequestFailed"
proof -
  let ?w = "exec cover_calls init_world"
  let ?img2 = "example_image ''img2'' ''trip00001'' (Num 30)"
  have l: "fst (loadGalleryImages ''trip00001'' env_ok ?w)
       = Resolved [?img2, example_image ''img3'' ''trip00001'' (Num 30),
                   example_image ''img7'' ''trip00001'' (Num 30), example_image ''img1'' ''trip00001'' (Num 20)]"
    by code_simp
  have n: "fst (loadGalleryImages ''nobody'' env_ok ?w) = Resolved []"
    by code_simp
  have r: "fst (loadGalleryImages ''trip00001'' request_fails ?w) = Rejected RequestFailed"
    by code_simp
  have v: "list_all (\<lambda>i. galleryId i = ''trip00001'' \<longrightarrow> timestamp i \<noteq> NaN) (images ?w)"
    by code_simp
  then have v': "\<forall>i\<in>set (images ?w). galleryId i = ''trip00001'' \<longrightarrow> timestamp i \<noteq> NaN"
    by (simp only: list_all_iff)
  note cov = cover_derivation [of "''trip00001''" env_ok cover_calls init_world]
  from cov l have c: "fst (getGalleryCoverImage ''trip00001'' env_ok ?w) = Resolved (Some ?img2)"
    by simp
  from cov c have "case Some ?img2 of
           None \<Rightarrow> \<forall>i\<in>set (images ?w). galleryId i \<noteq> ''trip00001''
         | Some x \<Rightarrow>
             x \<in> set (images ?w) \<and> galleryId x = ''trip00001'' \<and>
             ((\<forall>i\<in>set (images ?w). galleryId i = ''trip00001'' \<longrightarrow> timestamp i \<noteq> NaN) \<longrightarrow>
              (\<forall>i\<in>set (images ?w). galleryId i = ''trip00001'' \<longrightarrow>
                 number_le (timestamp i) (timestamp x)))"
    by blast
  with v' have "\<forall>i\<in>set (images ?w). galleryId i = ''trip00001'' \<longrightarrow>
      number_le (timestamp i) (timestamp ?img2)"
    by simp
  then have newest: "list_all (\<lambda>i. galleryId i = ''trip00001'' \<longrightarrow>
          number_le (timestamp i) (timestamp ?img2)) (images ?w)"
    by (simp only: list_all_iff)
  from cover_derivation [of "''nobody''" env_ok cover_calls init_world] n
  have e: "fst (getGalleryCoverImage ''nobody'' env_ok ?w) = Resolved None"
    by simp
  from cover_derivation [of "''trip00001''" request_fails cover_calls init_world] r
  have f: "fst (getGalleryCoverImage ''trip00001'' request_fails ?w) = Rejected RequestFailed"
    by simp
  from l c v newest n e f show ?thesis by (intro conjI)
qed


theorem loadGallery_absent_witness:
  "store_get id_gallery ''missing'' (galleries trip_world) = None
   \<and> fst (loadGallery ''missing'' env_ok trip_world) = Resolved None
   \<and> fst (loadGallery ''missing'' request_fails trip_world) = Rejected RequestFailed
   \<and> fst (loadGallery ''missing'' open_fails init_world) = Rejected OpenFailed"
proof -
  have h: "store_get id_gallery ''missing'' (galleries trip_world) = None" by code_simp
  have h0: "store_get id_gallery ''missing'' (galleries init_world) = None" by code_simp
  have e: "\<not> (\<not> dbInstance trip_world \<and> \<not> open_ok env_ok)" "fate env_ok \<noteq> RequestError 0"
    "\<not> (\<not> dbInstance trip_world \<and> \<not> open_ok request_fails)" "fate request_fails = RequestError 0"
    "\<not> dbInstance init_world \<and> \<not> open_ok open_fails"
    by code_simp+
  from loadGallery_absent [OF h, of env_ok] loadGallery_absent [OF h, of request_fails]
    loadGallery_absent [OF h0, of open_fails] e h
  show ?thesis by simp
qed

theorem deleteGallery_frame_witness:
  "store_ok trip_world
   \<and> new_gallery ''Home'' (Some ''at home'') ''0.home00002abc'' 100 101 \<in> set (galleries trip_world)
   \<and> store_get id_gallery ''home00002'' (galleries (snd (deleteGallery ''trip00001'' env_ok trip_world)))
       = Some (new_gallery ''Home'' (Some ''at home'') ''0.home00002abc'' 100 101)
   \<and> example_image ''img4'' ''home00002'' (Num 25) \<in> set (images trip_world)
   \<and> store_get id_image ''img4'' (images (snd (deleteGallery ''trip00001'' env_ok trip_world)))
       = Some (example_image ''img4'' ''home00002'' (Num 25))"
proof -
  let ?home = "new_gallery ''Home'' (Some ''at home'') ''0.home00002abc'' 100 101"
  let ?img4 = "example_image ''img4'' ''home00002'' (Num 25)"
  have h: "store_ok trip_world" by code_simp
  have m: "?home \<in> set (galleries trip_world)" "?img4 \<in> set (images trip_world)" by code_simp+
  have k: "id_gallery ?home = ''home00002''" "id_gallery ?home \<noteq> ''trip00001''"
    "id_image ?img4 = ''img4''" "galleryId ?img4 \<noteq> ''trip00001''" by code_simp+
  from deleteGallery_frame [OF h, of "''trip00001''" env_ok] m k
  have "store_get id_gallery (id_gallery ?home) (galleries (snd (deleteGallery ''trip00001'' env_ok trip_world)))
       = Some ?home"
    and "store_get id_image (id_image ?img4) (images (snd (deleteGallery ''trip00001'' env_ok trip_world)))
       = Some ?img4"
    by blast+
  with h m k show ?thesis by simp
qed


end
